theory Spec2Isabelle
  imports Complex_Main "HOL-Library.Sublist"
begin

section \<open>Text: characters and regular expressions\<close>

text \<open>
  A JavaScript string is modelled as a \<^typ>\<open>string\<close>: a list of code units, here the
  units 0 to 255. All patterns of the program are written in ASCII, and the character
  classes below are the classes of ECMAScript restricted to these units.
\<close>

definition dquote :: char where
  "dquote = CHR 0x22"

definition squote :: char where
  "squote = CHR 0x27"

definition isSpace :: "char \<Rightarrow> bool" where
  \<comment> \<open>\<^verbatim>\<open>\s\<close>, and the white space \<^verbatim>\<open>Number()\<close> trims: TAB, LF, VT, FF, CR, SP, NBSP\<close>
  "isSpace c = (c \<in> set [CHR 0x09, CHR 0x0A, CHR 0x0B, CHR 0x0C, CHR 0x0D, CHR 0x20, CHR 0xA0])"

definition isDigit :: "char \<Rightarrow> bool" where
  \<comment> \<open>\<^verbatim>\<open>\d\<close>\<close>
  "isDigit c = (c \<in> set ''0123456789'')"

definition isLower :: "char \<Rightarrow> bool" where
  "isLower c = (c \<in> set ''abcdefghijklmnopqrstuvwxyz'')"

definition isUpper :: "char \<Rightarrow> bool" where
  "isUpper c = (c \<in> set ''ABCDEFGHIJKLMNOPQRSTUVWXYZ'')"

definition isWord :: "char \<Rightarrow> bool" where
  \<comment> \<open>\<^verbatim>\<open>\w\<close>\<close>
  "isWord c = (isLower c \<or> isUpper c \<or> isDigit c \<or> c = CHR ''_'')"

definition canon :: "char \<Rightarrow> char" where
  \<comment> \<open>the canonical form under the \<^verbatim>\<open>i\<close> flag: an ASCII letter in upper case; a unit
      beyond ASCII never canonicalises to an ASCII letter\<close>
  "canon c =
     (case map_of (zip ''abcdefghijklmnopqrstuvwxyz'' ''ABCDEFGHIJKLMNOPQRSTUVWXYZ'') c of
        Some u \<Rightarrow> u
      | None \<Rightarrow> c)"

lemma canon_code [code]:
  "canon (Char b0 b1 b2 b3 b4 b5 b6 b7) =
     (if b5 \<and> b6 \<and> \<not> b7 \<and> (b0 \<or> b1 \<or> b2 \<or> b3 \<or> b4) \<and> \<not> (b4 \<and> b3 \<and> (b2 \<or> (b1 \<and> b0)))
      then Char b0 b1 b2 b3 b4 False b6 b7
      else Char b0 b1 b2 b3 b4 b5 b6 b7)"
  by (cases b5; cases b6; cases b7; simp add: canon_def;
      cases b0; cases b1; cases b2; cases b3; cases b4; simp)

definition eqChar :: "bool \<Rightarrow> char \<Rightarrow> char \<Rightarrow> bool" where
  "eqChar ic a b = (if a = b then True else if ic then canon a = canon b else False)"

fun startsWith :: "bool \<Rightarrow> string \<Rightarrow> string \<Rightarrow> bool" where
  "startsWith ic [] s = True"
| "startsWith ic (c # t) [] = False"
| "startsWith ic (c # t) (x # s) = (if eqChar ic c x then startsWith ic t s else False)"

text \<open>
  The patterns of the program are sequences of literal text, character classes, a
  quantified character class (greedy \<^verbatim>\<open>*\<close> and \<^verbatim>\<open>+\<close>, lazy \<^verbatim>\<open>*?\<close>) and alternatives of
  literal text. A pattern is a list of such atoms; the first argument of the matcher is
  the \<^verbatim>\<open>i\<close> flag. A match returns the text each atom consumed, so that capture group
  \<open>k\<close> of the source is the entry of its atom.
\<close>

datatype atom =
    Str string
  | One "char \<Rightarrow> bool"
  | Star "char \<Rightarrow> bool"
  | Plus "char \<Rightarrow> bool"
  | Lazy "char \<Rightarrow> bool"
  | Alt "string list"

fun lengths :: "bool \<Rightarrow> atom \<Rightarrow> string \<Rightarrow> nat list" where
  \<comment> \<open>the lengths an atom may consume at the start of the text, in the order the
      backtracking matcher tries them\<close>
  "lengths ic (Str t) s = (if startsWith ic t s then [length t] else [])"
| "lengths ic (One P) s = (case s of [] \<Rightarrow> [] | x # _ \<Rightarrow> if P x then [1] else [])"
| "lengths ic (Star P) s = rev [0 ..< Suc (length (takeWhile P s))]"
| "lengths ic (Plus P) s = rev [1 ..< Suc (length (takeWhile P s))]"
| "lengths ic (Lazy P) s = [0 ..< Suc (length (takeWhile P s))]"
| "lengths ic (Alt ts) s = map length (filter (\<lambda>t. startsWith ic t s) ts)"

fun firstSome :: "('a \<Rightarrow> 'b option) \<Rightarrow> 'a list \<Rightarrow> 'b option" where
  "firstSome f [] = None"
| "firstSome f (x # xs) = (case f x of Some y \<Rightarrow> Some y | None \<Rightarrow> firstSome f xs)"

fun matchHere :: "bool \<Rightarrow> atom list \<Rightarrow> string \<Rightarrow> string list option" where
  "matchHere ic [] s = Some []"
| "matchHere ic (a # r) s =
     firstSome (\<lambda>n. map_option ((#) (take n s)) (matchHere ic r (drop n s))) (lengths ic a s)"

fun findFirst :: "bool \<Rightarrow> atom list \<Rightarrow> string \<Rightarrow> (nat \<times> string list) option" where
  \<comment> \<open>the leftmost match: its index and its groups\<close>
  "findFirst ic re [] = map_option (Pair 0) (matchHere ic re [])"
| "findFirst ic re (x # xs) =
     (case matchHere ic re (x # xs) of
        Some g \<Rightarrow> Some (0, g)
      | None \<Rightarrow> map_option (\<lambda>(i, g). (Suc i, g)) (findFirst ic re xs))"

definition test :: "bool \<Rightarrow> atom list \<Rightarrow> string \<Rightarrow> bool" where
  "test ic re s = (findFirst ic re s \<noteq> None)"

lemma firstSome_Some:
  "firstSome f xs = Some y \<Longrightarrow> \<exists>x \<in> set xs. f x = Some y"
  by (induction xs) (auto split: option.splits)

lemma firstSome_None:
  "firstSome f xs = None \<longleftrightarrow> (\<forall>x \<in> set xs. f x = None)"
  by (induction xs) (auto split: option.splits)

lemma startsWith_length:
  "startsWith ic t s \<Longrightarrow> length t \<le> length s"
  by (induction ic t s rule: startsWith.induct) (auto split: if_splits)

lemma lengths_le:
  "n \<in> set (lengths ic a s) \<Longrightarrow> n \<le> length s"
proof (cases a)
  case (Str t)
  then show "n \<in> set (lengths ic a s) \<Longrightarrow> n \<le> length s"
    by (auto dest: startsWith_length split: if_splits)
next
  case (One P)
  then show "n \<in> set (lengths ic a s) \<Longrightarrow> n \<le> length s"
    by (cases s) (auto split: if_splits)
next
  case (Star P)
  have "length (takeWhile P s) \<le> length s" by (rule length_takeWhile_le)
  with Star show "n \<in> set (lengths ic a s) \<Longrightarrow> n \<le> length s" by auto
next
  case (Plus P)
  have "length (takeWhile P s) \<le> length s" by (rule length_takeWhile_le)
  with Plus show "n \<in> set (lengths ic a s) \<Longrightarrow> n \<le> length s" by auto
next
  case (Lazy P)
  have "length (takeWhile P s) \<le> length s" by (rule length_takeWhile_le)
  with Lazy show "n \<in> set (lengths ic a s) \<Longrightarrow> n \<le> length s" by auto
next
  case (Alt ts)
  then show "n \<in> set (lengths ic a s) \<Longrightarrow> n \<le> length s"
    by (auto dest: startsWith_length)
qed

lemma matchHere_prefix:
  "matchHere ic re s = Some g \<Longrightarrow> concat g = take (length (concat g)) s"
proof (induction re arbitrary: s g)
  case Nil
  then show ?case by simp
next
  case (Cons a r)
  from Cons.prems obtain n where n: "n \<in> set (lengths ic a s)"
    and m: "map_option ((#) (take n s)) (matchHere ic r (drop n s)) = Some g"
    by (auto dest: firstSome_Some)
  from m obtain g' where g': "matchHere ic r (drop n s) = Some g'" and g: "g = take n s # g'"
    by auto
  from n have le: "n \<le> length s" by (rule lengths_le)
  from Cons.IH [OF g'] have ih: "concat g' = take (length (concat g')) (drop n s)" .
  have "take (n + length (concat g')) s = take n s @ take (length (concat g')) (drop n s)"
    by (simp add: take_add)
  with ih g le show ?case by simp
qed

lemma matchHere_length:
  "matchHere ic re s = Some g \<Longrightarrow> length (concat g) \<le> length s"
proof -
  assume "matchHere ic re s = Some g"
  then have "concat g = take (length (concat g)) s" by (rule matchHere_prefix)
  then have "length (concat g) = length (take (length (concat g)) s)" by simp
  then show ?thesis by simp
qed

lemma findFirst_bound:
  "findFirst ic re s = Some (i, g) \<Longrightarrow> i + length (concat g) \<le> length s"
proof (induction s arbitrary: i)
  case Nil
  then show ?case
    by (auto split: option.splits dest: matchHere_length)
next
  case (Cons x xs)
  show ?case
  proof (cases "matchHere ic re (x # xs)")
    case (Some g')
    with Cons.prems have "i = 0" "g' = g" by auto
    with Some show ?thesis by (auto dest: matchHere_length)
  next
    case None
    with Cons.prems obtain j where j: "findFirst ic re xs = Some (j, g)" and i: "i = Suc j"
      by auto
    from Cons.IH [OF j] i show ?thesis by simp
  qed
qed

text \<open>
  A global scan (\<^verbatim>\<open>replace\<close> and \<^verbatim>\<open>matchAll\<close> with the \<^verbatim>\<open>g\<close> flag): the text is cut
  into the successive matches, each with the text before it, and the text after the last
  match. After an empty match the scan moves on by one character.
\<close>

definition pushFront ::
  "char \<Rightarrow> (string \<times> string list) list \<times> string \<Rightarrow> (string \<times> string list) list \<times> string" where
  "pushFront c r =
     (case r of
        ([], t) \<Rightarrow> ([], c # t)
      | ((p, g) # ms, t) \<Rightarrow> ((c # p, g) # ms, t))"

function scan :: "bool \<Rightarrow> atom list \<Rightarrow> string \<Rightarrow> (string \<times> string list) list \<times> string" where
  "scan ic re s =
     (case findFirst ic re s of
        None \<Rightarrow> ([], s)
      | Some (i, g) \<Rightarrow>
          (let rest = drop (i + length (concat g)) s;
               r = (if concat g \<noteq> [] then scan ic re rest
                    else (case rest of [] \<Rightarrow> ([], []) | c # cs \<Rightarrow> pushFront c (scan ic re cs)))
           in ((take i s, g) # fst r, snd r)))"
  by pat_completeness auto
termination
proof (relation "measure (\<lambda>(ic, re, s). length s)")
  show "wf (measure (\<lambda>(ic, re, s). length s))" by simp
next
  fix ic :: bool and re :: "atom list" and s rest :: string and x2 x y
  assume f: "findFirst ic re s = Some x2" and x: "(x, y) = x2"
    and rest: "rest = drop (x + length (concat y)) s" and ne: "concat y \<noteq> []"
  from f x have "findFirst ic re s = Some (x, y)" by simp
  then have "x + length (concat y) \<le> length s" by (rule findFirst_bound)
  with ne rest have "length rest < length s" by (cases s) auto
  then show "((ic, re, rest), (ic, re, s)) \<in> measure (\<lambda>(ic, re, s). length s)" by simp
next
  fix ic :: bool and re :: "atom list" and s rest cs :: string and x :: nat
    and y :: "string list" and c
  assume rest: "rest = drop (x + length (concat y)) s" and c: "rest = c # cs"
  have "length rest \<le> length s" using rest by simp
  with c show "((ic, re, cs), (ic, re, s)) \<in> measure (\<lambda>(ic, re, s). length s)" by simp
qed

declare scan.simps [simp del]

definition replaceAll :: "bool \<Rightarrow> atom list \<Rightarrow> (string list \<Rightarrow> string) \<Rightarrow> string \<Rightarrow> string" where
  \<comment> \<open>\<^verbatim>\<open>s.replace(/re/g, f)\<close>\<close>
  "replaceAll ic re f s =
     (case scan ic re s of (ms, t) \<Rightarrow> concat (map (\<lambda>(p, g). p @ f g) ms) @ t)"

definition matchAll :: "bool \<Rightarrow> atom list \<Rightarrow> string \<Rightarrow> string list list" where
  \<comment> \<open>\<^verbatim>\<open>s.matchAll(/re/g)\<close>: the groups of every match\<close>
  "matchAll ic re s = map snd (fst (scan ic re s))"

definition replaceFirst :: "bool \<Rightarrow> atom list \<Rightarrow> (string list \<Rightarrow> string) \<Rightarrow> string \<Rightarrow> string" where
  \<comment> \<open>\<^verbatim>\<open>s.replace(/re/, f)\<close>, no \<^verbatim>\<open>g\<close> flag\<close>
  "replaceFirst ic re f s =
     (case findFirst ic re s of
        None \<Rightarrow> s
      | Some (i, g) \<Rightarrow> take i s @ f g @ drop (i + length (concat g)) s)"

text \<open>
  \<^verbatim>\<open>s.split(/re/)\<close>: the separator is tried at each index past the start of the current
  piece; a separator that would end where the piece starts moves on by one character. The
  pattern here has no capture group, so nothing of the separator enters the pieces.
\<close>

function splitFrom :: "bool \<Rightarrow> atom list \<Rightarrow> string \<Rightarrow> string \<Rightarrow> string list" where
  "splitFrom ic re cur [] = [cur]"
| "splitFrom ic re cur (x # xs) =
     (case matchHere ic re (x # xs) of
        None \<Rightarrow> splitFrom ic re (cur @ [x]) xs
      | Some g \<Rightarrow>
          if concat g = [] then
            (if cur = [] then splitFrom ic re [x] xs else cur # splitFrom ic re [x] xs)
          else cur # splitFrom ic re [] (drop (length (concat g)) (x # xs)))"
  by pat_completeness auto
termination
  by (relation "measure (\<lambda>(ic, re, cur, s). length s)") auto

definition split :: "bool \<Rightarrow> atom list \<Rightarrow> string \<Rightarrow> string list" where
  "split ic re s =
     (if s = [] then (if matchHere ic re [] = None then [[]] else [])
      else splitFrom ic re [] s)"

fun join :: "string \<Rightarrow> string list \<Rightarrow> string" where
  \<comment> \<open>\<^verbatim>\<open>pieces.join(sep)\<close>\<close>
  "join sep [] = []"
| "join sep [x] = x"
| "join sep (x # y # r) = x @ sep @ join sep (y # r)"

section \<open>Numbers\<close>

text \<open>
  A JavaScript number is a double: not-a-number, an infinity, or a finite value, kept
  here as the rational it denotes (the two zeros are not told apart: the program only
  compares with \<^verbatim>\<open>=== 0\<close>, which holds for both). \<open>fl\<close> rounds a rational to the nearest
  double, ties to even: 53 significant bits, no bit below \<open>2 ^ -1074\<close> (the subnormal
  range), and an infinity when the rounded value reaches \<open>2 ^ 1024\<close>.
\<close>

datatype number = NaN | PosInf | NegInf | Num rat

fun bitLen :: "nat \<Rightarrow> nat" where
  "bitLen n = (if n = 0 then 0 else Suc (bitLen (n div 2)))"

declare bitLen.simps [simp del]

definition pow2 :: "int \<Rightarrow> rat" where
  "pow2 e = (if 0 \<le> e then of_int (2 ^ nat e) else 1 / of_int (2 ^ nat (- e)))"

definition pow10 :: "int \<Rightarrow> rat" where
  "pow10 e = (if 0 \<le> e then of_int (10 ^ nat e) else 1 / of_int (10 ^ nat (- e)))"

definition ilog2 :: "rat \<Rightarrow> int" where
  \<comment> \<open>the floor of the binary logarithm of a positive rational\<close>
  "ilog2 a =
     (case quotient_of a of (p, q) \<Rightarrow>
        (let d = int (bitLen (nat p)) - int (bitLen (nat q))
         in if pow2 d \<le> a then d else d - 1))"

definition roundHalfEven :: "rat \<Rightarrow> int" where
  "roundHalfEven x =
     (let f = floor x; d = x - of_int f
      in if d < 1 / 2 then f else if 1 / 2 < d then f + 1 else if even f then f else f + 1)"

definition fl :: "rat \<Rightarrow> number" where
  \<comment> \<open>\<open>m\<close> is the significand, at most \<open>2 ^ 53\<close>, and \<open>e\<close> the exponent of its last bit;
      the largest double is \<open>(2 ^ 53 - 1) * 2 ^ 971\<close>\<close>
  "fl x =
     (if x = 0 then Num 0
      else
        (let a = \<bar>x\<bar>;
             e = max (ilog2 a - 52) (- 1074);
             m = roundHalfEven (a / pow2 e)
         in if 971 < e \<or> (e = 971 \<and> 2 ^ 53 \<le> m) then (if x < 0 then NegInf else PosInf)
            else Num ((if x < 0 then - 1 else 1) * of_int m * pow2 e)))"

text \<open>
  Numeric literals in text (\<^verbatim>\<open>StrDecimalLiteral\<close>): \<open>scanDecimal\<close> reads the longest
  unsigned decimal literal at the start of a text and returns its exact value as a
  mantissa and a power of ten, with the text after it.
\<close>

definition digitVal :: "char \<Rightarrow> nat" where
  "digitVal c =
     (if isDigit c then of_char c - 48
      else if isLower c then of_char c - 87
      else of_char c - 55)"

definition natOfDigits :: "nat \<Rightarrow> string \<Rightarrow> nat" where
  "natOfDigits base ds = foldl (\<lambda>a c. a * base + digitVal c) 0 ds"

definition scanExponent :: "string \<Rightarrow> int \<times> string" where
  \<comment> \<open>an exponent part, when a well-formed one follows; else exponent 0 and the text as it is\<close>
  "scanExponent s =
     (case s of
        [] \<Rightarrow> (0, s)
      | c # r \<Rightarrow>
          if c = CHR ''e'' \<or> c = CHR ''E'' then
            (let neg = (r \<noteq> [] \<and> hd r = CHR ''-'');
                 r' = (if r \<noteq> [] \<and> (hd r = CHR ''-'' \<or> hd r = CHR ''+'') then tl r else r);
                 ds = takeWhile isDigit r'
             in if ds = [] then (0, s)
                else ((if neg then - int (natOfDigits 10 ds) else int (natOfDigits 10 ds)),
                      dropWhile isDigit r'))
          else (0, s))"

definition scanDecimal :: "string \<Rightarrow> ((nat \<times> int) \<times> string) option" where
  "scanDecimal s =
     (let ip = takeWhile isDigit s;
          r1 = dropWhile isDigit s;
          dot = (r1 \<noteq> [] \<and> hd r1 = CHR ''.'');
          fp = (if dot then takeWhile isDigit (tl r1) else []);
          r2 = (if dot then dropWhile isDigit (tl r1) else r1)
      in if ip = [] \<and> fp = [] then None
         else
           (case scanExponent r2 of (e, r3) \<Rightarrow>
              Some ((natOfDigits 10 (ip @ fp), e - int (length fp)), r3)))"

definition isHexDigit :: "char \<Rightarrow> bool" where
  "isHexDigit c = (isDigit c \<or> c \<in> set ''abcdefABCDEF'')"

definition nonDecimal :: "string \<Rightarrow> number option" where
  \<comment> \<open>\<^verbatim>\<open>0x\<close>, \<^verbatim>\<open>0o\<close> and \<^verbatim>\<open>0b\<close> integer literals; \<open>None\<close> when the text does not start as one\<close>
  "nonDecimal t =
     (case t of
        z # k # ds \<Rightarrow>
          if z \<noteq> CHR ''0'' then None
          else if k = CHR ''x'' \<or> k = CHR ''X'' then
            Some (if ds \<noteq> [] \<and> list_all isHexDigit ds then fl (of_nat (natOfDigits 16 ds)) else NaN)
          else if k = CHR ''o'' \<or> k = CHR ''O'' then
            Some (if ds \<noteq> [] \<and> list_all (\<lambda>c. c \<in> set ''01234567'') ds
                  then fl (of_nat (natOfDigits 8 ds)) else NaN)
          else if k = CHR ''b'' \<or> k = CHR ''B'' then
            Some (if ds \<noteq> [] \<and> list_all (\<lambda>c. c \<in> set ''01'') ds
                  then fl (of_nat (natOfDigits 2 ds)) else NaN)
          else None
      | _ \<Rightarrow> None)"

definition trimWs :: "string \<Rightarrow> string" where
  "trimWs s = rev (dropWhile isSpace (rev (dropWhile isSpace s)))"

definition signedDecimal :: "string \<Rightarrow> number" where
  \<comment> \<open>a whole text as \<^verbatim>\<open>StrDecimalLiteral\<close>: an optional sign, then \<^verbatim>\<open>Infinity\<close> or digits\<close>
  "signedDecimal t =
     (let neg = (t \<noteq> [] \<and> hd t = CHR ''-'');
          u = (if t \<noteq> [] \<and> (hd t = CHR ''-'' \<or> hd t = CHR ''+'') then tl t else t)
      in if u = ''Infinity'' then (if neg then NegInf else PosInf)
         else
           (case scanDecimal u of
              Some ((m, e), []) \<Rightarrow> fl ((if neg then - 1 else 1) * of_nat m * pow10 e)
            | _ \<Rightarrow> NaN))"

definition toNumber :: "string \<Rightarrow> number" where
  \<comment> \<open>\<^verbatim>\<open>Number(x)\<close> of a string\<close>
  "toNumber x =
     (let t = trimWs x
      in if t = [] then Num 0
         else (case nonDecimal t of Some v \<Rightarrow> v | None \<Rightarrow> signedDecimal t))"

section \<open>The dash-array fix\<close>

definition isSep :: "char \<Rightarrow> bool" where
  \<comment> \<open>the class \<^verbatim>\<open>[, ]\<close>\<close>
  "isSep c = (c = CHR '','' \<or> c = CHR '' '')"

definition fixEntry :: "string \<Rightarrow> string" where
  \<comment> \<open>\<^verbatim>\<open>(x) => (Number(x) === 0 ? "0.001" : x)\<close>\<close>
  "fixEntry x = (if toNumber x = Num 0 then ''0.001'' else x)"

definition fixList :: "string \<Rightarrow> string" where
  "fixList list = join '' '' (map fixEntry (split False [Plus isSep] list))"

definition dashAttr :: "atom list" where
  \<comment> \<open>\<^verbatim>\<open>/stroke-dasharray="([^"]*)"/gi\<close>, the capture is entry 1\<close>
  \<open>dashAttr = [Str ''stroke-dasharray="'', Star (\<lambda>c. c \<noteq> dquote), Str ''"'']\<close>

definition dashStyle :: "atom list" where
  \<comment> \<open>\<^verbatim>\<open>/stroke-dasharray\s*:\s*([^;"']+)/gi\<close>, the capture is entry 4\<close>
  "dashStyle =
     [Str ''stroke-dasharray'', Star isSpace, Str '':'', Star isSpace,
      Plus (\<lambda>c. c \<noteq> CHR '';'' \<and> c \<noteq> dquote \<and> c \<noteq> squote)]"

definition fixDashArrays :: "string \<Rightarrow> string" where
  \<open>fixDashArrays svg =
     (let svg1 = replaceAll True dashAttr
                   (\<lambda>g. ''stroke-dasharray="'' @ fixList (g ! 1) @ ''"'') svg;
          svg2 = replaceAll True dashStyle
                   (\<lambda>g. ''stroke-dasharray:'' @ fixList (g ! 4)) svg1
      in svg2)\<close>

section \<open>Extracting and sanitizing markup\<close>

fun indexOf :: "string \<Rightarrow> string \<Rightarrow> nat option" where
  \<comment> \<open>the first index at which the text holds \<open>pat\<close>, compared exactly\<close>
  "indexOf pat [] = (if pat = [] then Some 0 else None)"
| "indexOf pat (x # xs) =
     (if startsWith False pat (x # xs) then Some 0 else map_option Suc (indexOf pat xs))"

definition indexOfFrom :: "string \<Rightarrow> string \<Rightarrow> nat \<Rightarrow> nat option" where
  \<comment> \<open>\<^verbatim>\<open>text.indexOf(pat, start)\<close>\<close>
  "indexOfFrom pat text start = map_option (\<lambda>i. start + i) (indexOf pat (drop start text))"

definition slice :: "string \<Rightarrow> nat \<Rightarrow> nat \<Rightarrow> string" where
  \<comment> \<open>\<^verbatim>\<open>text.slice(a, b)\<close> for indices that are not negative\<close>
  "slice text a b = take (b - a) (drop a text)"

definition svgOpen :: "atom list" where
  \<comment> \<open>\<^verbatim>\<open>/<svg[\s\S]*?>/i\<close>\<close>
  "svgOpen = [Str ''<svg'', Lazy (\<lambda>c. True), Str ''>'']"

definition extractSvgMarkup :: "string \<Rightarrow> string option" where
  "extractSvgMarkup text =
     (case findFirst True svgOpen text of
        None \<Rightarrow> None
      | Some (start, g) \<Rightarrow>
          (case indexOfFrom ''</svg>'' text start of
             None \<Rightarrow> None
           | Some e \<Rightarrow> Some (slice text start (e + 6))))"

definition commentRe :: "atom list" where
  \<comment> \<open>\<^verbatim>\<open>/<!--[\s\S]*?-->/g\<close>\<close>
  "commentRe = [Str ''<!--'', Lazy (\<lambda>c. True), Str ''-->'']"

definition doctypeRe :: "atom list" where
  \<comment> \<open>\<^verbatim>\<open>/<!DOCTYPE[^>]*?>/gi\<close>\<close>
  "doctypeRe = [Str ''<!DOCTYPE'', Lazy (\<lambda>c. c \<noteq> CHR ''>''), Str ''>'']"

definition UNWANTED_TAGS :: "string list" where
  "UNWANTED_TAGS =
     [''script'', ''link'', ''noscript'', ''meta'', ''base'', ''head'', ''html'', ''body'',
      ''foreignObject'']"

definition unwantedBlock :: "atom list" where
  \<comment> \<open>\<^verbatim>\<open><(?:tags)[^>]*?>[\s\S]*?<\/(?:tags)>\<close>, flags \<^verbatim>\<open>gi\<close>\<close>
  "unwantedBlock =
     [Str ''<'', Alt UNWANTED_TAGS, Lazy (\<lambda>c. c \<noteq> CHR ''>''), Str ''>'', Lazy (\<lambda>c. True),
      Str ''</'', Alt UNWANTED_TAGS, Str ''>'']"

definition unwantedSingle :: "atom list" where
  \<comment> \<open>\<^verbatim>\<open><(?:tags)[^>]*?\/?>\<close>, flags \<^verbatim>\<open>gi\<close>; the optional slash is the alternative
      of a slash and nothing, tried in this order\<close>
  "unwantedSingle =
     [Str ''<'', Alt UNWANTED_TAGS, Lazy (\<lambda>c. c \<noteq> CHR ''>''), Alt [''/'', ''''], Str ''>'']"

definition xmlnsRe :: "atom list" where
  \<comment> \<open>\<^verbatim>\<open>/\sxmlns\s*=\s*"http:\/\/www\.w3\.org\/2000\/svg"/i\<close>\<close>
  \<open>xmlnsRe =
     [One isSpace, Str ''xmlns'', Star isSpace, Str ''='', Star isSpace,
      Str ''"http://www.w3.org/2000/svg"'']\<close>

definition svgTagRe :: "atom list" where
  \<comment> \<open>\<^verbatim>\<open>/<svg(\s|>)/i\<close>: the group is one character, white space or \<^verbatim>\<open>>\<close>; entry 1\<close>
  "svgTagRe = [Str ''<svg'', One (\<lambda>c. isSpace c \<or> c = CHR ''>'')]"

text \<open>The statements of \<^verbatim>\<open>sanitizeSvg\<close>, one definition each, in the order of the source.\<close>

definition stripComments :: "string \<Rightarrow> string" where
  "stripComments svg = replaceAll False commentRe (\<lambda>g. []) svg"

definition stripDoctype :: "string \<Rightarrow> string" where
  "stripDoctype svg = replaceAll True doctypeRe (\<lambda>g. []) svg"

definition stripUnwanted :: "string \<Rightarrow> string" where
  "stripUnwanted svg =
     replaceAll True unwantedSingle (\<lambda>g. []) (replaceAll True unwantedBlock (\<lambda>g. []) svg)"

definition ensureNamespace :: "string \<Rightarrow> string" where
  \<open>ensureNamespace svg =
     (if \<not> test True xmlnsRe svg
      then replaceFirst True svgTagRe (\<lambda>g. ''<svg xmlns="http://www.w3.org/2000/svg"'' @ g ! 1) svg
      else svg)\<close>

definition sanitizeSvg :: "string \<Rightarrow> string" where
  "sanitizeSvg svg = ensureNamespace (stripUnwanted (stripDoctype (stripComments svg)))"

definition sanitize :: "string \<Rightarrow> string" where
  \<comment> \<open>the two calls every caller makes on a page after inlining (\<^verbatim>\<open>saveSvg\<close>, the response
      handler of \<^verbatim>\<open>downloadBook\<close>): \<^verbatim>\<open>fixDashArrays\<close>, then \<^verbatim>\<open>sanitizeSvg\<close>\<close>
  "sanitize svg = sanitizeSvg (fixDashArrays svg)"

section \<open>Inlining the assets of a page\<close>

text \<open>
  What \<^verbatim>\<open>inlineAssets\<close> reads from outside is a parameter: the cookies of the browser
  context, URL resolution (\<^verbatim>\<open>new URL(ref, base).href\<close>, which throws on an invalid URL),
  \<^verbatim>\<open>fetch\<close> (which rejects on a network error), \<^verbatim>\<open>path.extname\<close>, the UTF-8 decoding of
  a body, and the order in which the concurrent handlers of \<^verbatim>\<open>Promise.all\<close> complete.
  Each handler assigns \<^verbatim>\<open>svgText\<close> in one step after its last \<^verbatim>\<open>await\<close>, so the text
  returned is the substitutions applied one after the other in completion order.
\<close>

datatype error =
    InvalidUrl string
  | FetchFailed string
  | BodyFailed string
  | ReadFailed string
  | NoSvgFiles string

record response =
  status :: nat
  contentType :: "string option"
  body :: "string option"

record request =
  url :: string
  cookie :: string
  accept :: string
  referer :: string

record world =
  cookies :: "(string \<times> string) list"
  resolveUrl :: "string \<Rightarrow> string \<Rightarrow> string option"
  fetch :: "request \<Rightarrow> response option"
  extname :: "string \<Rightarrow> string"
  utf8 :: "string \<Rightarrow> string"
  completion :: "string list \<Rightarrow> string list"

definition ok :: "response \<Rightarrow> bool" where
  \<comment> \<open>\<^verbatim>\<open>res.ok\<close>: a status from 200 to 299\<close>
  "ok res = (200 \<le> status res \<and> status res \<le> 299)"

definition mimeOf :: "response \<Rightarrow> string" where
  \<comment> \<open>\<^verbatim>\<open>res.headers.get("content-type")?.split(";")[0] ?? ""\<close>\<close>
  "mimeOf res =
     (case contentType res of None \<Rightarrow> [] | Some ct \<Rightarrow> takeWhile (\<lambda>c. c \<noteq> CHR '';'') ct)"

definition cookieHeader :: "world \<Rightarrow> string" where
  "cookieHeader w = join ''; '' (map (\<lambda>(name, val). name @ ''='' @ val) (cookies w))"

definition lowerChar :: "char \<Rightarrow> char" where
  \<comment> \<open>\<^verbatim>\<open>toLowerCase\<close> of one unit: the ASCII letters, and the Latin-1 capitals\<close>
  "lowerChar c =
     (case map_of (zip ''ABCDEFGHIJKLMNOPQRSTUVWXYZ'' ''abcdefghijklmnopqrstuvwxyz'') c of
        Some l \<Rightarrow> l
      | None \<Rightarrow>
          (let n = (of_char c :: nat)
           in if 192 \<le> n \<and> n \<le> 222 \<and> n \<noteq> 215 then char_of (n + 32) else c))"

definition toLowerCase :: "string \<Rightarrow> string" where
  "toLowerCase s = map lowerChar s"

definition MIME_BY_EXT :: "(string \<times> string) list" where
  "MIME_BY_EXT =
     [(''.jpg'', ''image/jpeg''), (''.jpeg'', ''image/jpeg''), (''.png'', ''image/png''),
      (''.svg'', ''image/svg+xml'')]"

definition guessMime :: "world \<Rightarrow> string \<Rightarrow> string" where
  "guessMime w u =
     (case map_of MIME_BY_EXT (toLowerCase (extname w u)) of
        Some m \<Rightarrow> m
      | None \<Rightarrow> ''application/octet-stream'')"

definition base64Alphabet :: string where
  "base64Alphabet = ''ABCDEFGHIJKLMNOPQRSTUVWXYZabcdefghijklmnopqrstuvwxyz0123456789+/''"

fun base64 :: "string \<Rightarrow> string" where
  \<comment> \<open>\<^verbatim>\<open>buf.toString("base64")\<close>\<close>
  "base64 [] = []"
| "base64 [a] =
     (let n = (of_char a :: nat) * 16
      in [base64Alphabet ! (n div 64), base64Alphabet ! (n mod 64), CHR ''='', CHR ''=''])"
| "base64 [a, b] =
     (let n = ((of_char a :: nat) * 256 + of_char b) * 4
      in [base64Alphabet ! (n div 4096), base64Alphabet ! (n div 64 mod 64),
          base64Alphabet ! (n mod 64), CHR ''=''])"
| "base64 (a # b # c # r) =
     (let n = ((of_char a :: nat) * 256 + of_char b) * 256 + of_char c
      in [base64Alphabet ! (n div 262144), base64Alphabet ! (n div 4096 mod 64),
          base64Alphabet ! (n div 64 mod 64), base64Alphabet ! (n mod 64)] @ base64 r)"

definition dataUri :: "string \<Rightarrow> string \<Rightarrow> string" where
  "dataUri mime buf = ''data:'' @ mime @ '';base64,'' @ base64 buf"

definition transparentPngBase64 :: string where
  "transparentPngBase64 =
     ''iVBORw0KGgoAAAANSUhEUgAAAAEAAAABCAQAAAC1HAwCAAAAC0lEQVR4nGNgYAAAAAMAASsJTYQAAAAASUVORK5CYII=''"

definition placeholder :: string where
  \<comment> \<open>the 1x1 transparent PNG\<close>
  "placeholder = ''data:image/png;base64,'' @ transparentPngBase64"

function splitStr :: "string \<Rightarrow> string \<Rightarrow> string \<Rightarrow> string list" where
  \<comment> \<open>\<^verbatim>\<open>s.split(sep)\<close> for a separator that is not empty; \<open>cur\<close> is the piece being read\<close>
  "splitStr sep cur [] = [cur]"
| "splitStr sep cur (x # xs) =
     (if sep \<noteq> [] \<and> startsWith False sep (x # xs)
      then cur # splitStr sep [] (drop (length sep) (x # xs))
      else splitStr sep (cur @ [x]) xs)"
  by pat_completeness auto
termination
  by (relation "measure (\<lambda>(sep, cur, s). length s)") auto

definition substitute :: "string \<Rightarrow> string \<Rightarrow> string \<Rightarrow> string" where
  \<comment> \<open>\<^verbatim>\<open>svgText.split(ref).join(uri)\<close>; a reference is never empty\<close>
  "substitute ref uri svgText = join uri (splitStr ref [] svgText)"

definition imgTagRe :: "atom list" where
  \<comment> \<open>\<^verbatim>\<open>/<img[^>]+src=["']([^"']+)["']/i\<close>, the capture is entry 4\<close>
  "imgTagRe =
     [Str ''<img'', Plus (\<lambda>c. c \<noteq> CHR ''>''), Str ''src='', One (\<lambda>c. c = dquote \<or> c = squote),
      Plus (\<lambda>c. c \<noteq> dquote \<and> c \<noteq> squote), One (\<lambda>c. c = dquote \<or> c = squote)]"

definition imgSrc :: "string \<Rightarrow> string option" where
  \<comment> \<open>\<^verbatim>\<open>text.match(...)\<close> and its group 1\<close>
  "imgSrc text = map_option (\<lambda>(i, g). g ! 4) (findFirst True imgTagRe text)"

definition isImage :: "string \<Rightarrow> bool" where
  \<comment> \<open>\<^verbatim>\<open>mime.startsWith("image/")\<close>\<close>
  "isImage mime = startsWith False ''image/'' mime"

definition assetRequest :: "world \<Rightarrow> string \<Rightarrow> string \<Rightarrow> request" where
  \<comment> \<open>the first fetch of a reference: its URL and the three headers\<close>
  "assetRequest w svgUrl absUrl =
     \<lparr>url = absUrl, cookie = cookieHeader w,
      accept = guessMime w absUrl @
        '',image/avif,image/webp,image/png,image/jpeg,image/*;q=0.8,*/*;q=0.5'',
      referer = svgUrl\<rparr>"

definition imageRequest :: "world \<Rightarrow> string \<Rightarrow> string \<Rightarrow> request" where
  \<comment> \<open>the fetch of the image an HTML wrapper points to\<close>
  "imageRequest w absUrl imgAbs =
     \<lparr>url = imgAbs, cookie = cookieHeader w,
      accept = guessMime w imgAbs @ '',image/*;q=0.9,*/*;q=0.5'',
      referer = absUrl\<rparr>"

definition salvage :: "world \<Rightarrow> string \<Rightarrow> string \<Rightarrow> error + string option" where
  \<comment> \<open>the image of an HTML wrapper: \<open>Inr (Some uri)\<close> when it was fetched, \<open>Inr None\<close> when
      the handler goes on to the placeholder. The URL of the image is resolved before the
      \<^verbatim>\<open>try\<close> block; the fetch and the reading of the body are inside it.\<close>
  "salvage w absUrl text =
     (case imgSrc text of
        None \<Rightarrow> Inr None
      | Some src \<Rightarrow>
          (case resolveUrl w src absUrl of
             None \<Rightarrow> Inl (InvalidUrl src)
           | Some imgAbs \<Rightarrow>
               (case fetch w (imageRequest w absUrl imgAbs) of
                  None \<Rightarrow> Inr None
                | Some imgRes \<Rightarrow>
                    if ok imgRes then
                      (if isImage (mimeOf imgRes) then
                         (case body imgRes of
                            None \<Rightarrow> Inr None
                          | Some imgBuf \<Rightarrow> Inr (Some (dataUri (mimeOf imgRes) imgBuf)))
                       else Inr None)
                    else Inr None)))"

definition handleRef :: "world \<Rightarrow> string \<Rightarrow> string \<Rightarrow> error + string option" where
  \<comment> \<open>one handler of \<^verbatim>\<open>externals.map\<close>: \<open>Inl\<close> when it throws, \<open>Inr None\<close> when it returns
      without touching the text, \<open>Inr (Some uri)\<close> when it replaces the reference by \<open>uri\<close>\<close>
  "handleRef w svgUrl ref =
     (case resolveUrl w ref svgUrl of
        None \<Rightarrow> Inl (InvalidUrl ref)
      | Some absUrl \<Rightarrow>
          (case fetch w (assetRequest w svgUrl absUrl) of
             None \<Rightarrow> Inl (FetchFailed absUrl)
           | Some res \<Rightarrow>
               if \<not> ok res then Inr None
               else
                 (case body res of
                    None \<Rightarrow> Inl (BodyFailed absUrl)
                  | Some buf \<Rightarrow>
                      if \<not> isImage (mimeOf res) then
                        (case salvage w absUrl (utf8 w buf) of
                           Inl e \<Rightarrow> Inl e
                         | Inr (Some uri) \<Rightarrow> Inr (Some uri)
                         | Inr None \<Rightarrow> Inr (Some placeholder))
                      else Inr (Some (dataUri (mimeOf res) buf)))))"

definition urlAttr :: "atom list" where
  \<comment> \<open>\<^verbatim>\<open>/(?:xlink:href|href)=["']([^"']+)["']/g\<close>, the capture is entry 3\<close>
  "urlAttr =
     [Alt [''xlink:href'', ''href''], Str ''='', One (\<lambda>c. c = dquote \<or> c = squote),
      Plus (\<lambda>c. c \<noteq> dquote \<and> c \<noteq> squote), One (\<lambda>c. c = dquote \<or> c = squote)]"

definition cssUrl :: "atom list" where
  \<comment> \<open>\<^verbatim>\<open>/url\((?:'|"|)([^"')]+)(?:'|"|)\)/g\<close>, the capture is entry 2\<close>
  "cssUrl =
     [Str ''url('', Alt [[squote], [dquote], []],
      Plus (\<lambda>c. c \<noteq> dquote \<and> c \<noteq> squote \<and> c \<noteq> CHR '')''),
      Alt [[squote], [dquote], []], Str '')'']"

fun addAll :: "string list \<Rightarrow> string list \<Rightarrow> string list" where
  \<comment> \<open>\<^verbatim>\<open>refs.add(r)\<close> for each \<open>r\<close>: a set in insertion order\<close>
  "addAll refs [] = refs"
| "addAll refs (r # rs) = addAll (if r \<in> set refs then refs else refs @ [r]) rs"

definition externalRefs :: "string \<Rightarrow> string list" where
  "externalRefs svgText =
     filter (\<lambda>r. \<not> startsWith False ''data:'' r \<and> \<not> startsWith False ''#'' r)
       (addAll (addAll [] (map (\<lambda>g. g ! 3) (matchAll False urlAttr svgText)))
          (map (\<lambda>g. g ! 2) (matchAll False cssUrl svgText)))"

fun applyAll :: "world \<Rightarrow> string \<Rightarrow> string \<Rightarrow> string list \<Rightarrow> error + string" where
  \<comment> \<open>the handlers in completion order; the first that throws rejects \<^verbatim>\<open>Promise.all\<close>\<close>
  "applyAll w svgUrl svgText [] = Inr svgText"
| "applyAll w svgUrl svgText (ref # refs) =
     (case handleRef w svgUrl ref of
        Inl e \<Rightarrow> Inl e
      | Inr None \<Rightarrow> applyAll w svgUrl svgText refs
      | Inr (Some uri) \<Rightarrow> applyAll w svgUrl (substitute ref uri svgText) refs)"

definition inlineAssets :: "world \<Rightarrow> string \<Rightarrow> string \<Rightarrow> error + string" where
  "inlineAssets w svgText svgUrl =
     applyAll w svgUrl svgText (completion w (externalRefs svgText))"

section \<open>Assembling the document\<close>

text \<open>
  \<^verbatim>\<open>a.localeCompare(b, undefined, { numeric: true })\<close> is the platform's collation. It is
  modelled for ASCII names: a maximal run of digits compares by its value and sorts
  before any other character, other characters compare by code unit. The page files
  the downloader writes differ in their digits only.
\<close>

fun naturalKey :: "nat option \<Rightarrow> string \<Rightarrow> (nat + char) list" where
  "naturalKey acc [] = (case acc of None \<Rightarrow> [] | Some n \<Rightarrow> [Inl n])"
| "naturalKey acc (c # cs) =
     (if isDigit c
      then naturalKey (Some ((case acc of None \<Rightarrow> 0 | Some n \<Rightarrow> n) * 10 + digitVal c)) cs
      else (case acc of None \<Rightarrow> [] | Some n \<Rightarrow> [Inl n]) @ Inr c # naturalKey None cs)"

fun compareItem :: "nat + char \<Rightarrow> nat + char \<Rightarrow> int" where
  "compareItem (Inl m) (Inl n) = (if m < n then - 1 else if n < m then 1 else 0)"
| "compareItem (Inl m) (Inr d) = - 1"
| "compareItem (Inr c) (Inl n) = 1"
| "compareItem (Inr c) (Inr d) =
     (if (of_char c :: nat) < of_char d then - 1 else if (of_char d :: nat) < of_char c then 1 else 0)"

fun compareKeys :: "(nat + char) list \<Rightarrow> (nat + char) list \<Rightarrow> int" where
  "compareKeys [] [] = 0"
| "compareKeys [] (y # ys) = - 1"
| "compareKeys (x # xs) [] = 1"
| "compareKeys (x # xs) (y # ys) =
     (if compareItem x y \<noteq> 0 then compareItem x y else compareKeys xs ys)"

definition localeCompareNumeric :: "string \<Rightarrow> string \<Rightarrow> int" where
  "localeCompareNumeric a b = compareKeys (naturalKey None a) (naturalKey None b)"

fun insertBy :: "('a \<Rightarrow> 'a \<Rightarrow> int) \<Rightarrow> 'a \<Rightarrow> 'a list \<Rightarrow> 'a list" where
  "insertBy cmp x [] = [x]"
| "insertBy cmp x (y # ys) = (if cmp x y \<le> 0 then x # y # ys else y # insertBy cmp x ys)"

definition sortBy :: "('a \<Rightarrow> 'a \<Rightarrow> int) \<Rightarrow> 'a list \<Rightarrow> 'a list" where
  \<comment> \<open>\<^verbatim>\<open>xs.sort(cmp)\<close>, a stable sort\<close>
  "sortBy cmp xs = foldr (insertBy cmp) xs []"

definition endsWith :: "string \<Rightarrow> string \<Rightarrow> bool" where
  "endsWith s suf = (length suf \<le> length s \<and> drop (length s - length suf) s = suf)"

definition svgFiles :: "string list \<Rightarrow> string list" where
  \<comment> \<open>the directory listing, filtered and sorted as in both versions of \<^verbatim>\<open>svgFolderToPdf\<close>\<close>
  "svgFiles listing =
     sortBy localeCompareNumeric (filter (\<lambda>f. endsWith (toLowerCase f) ''.svg'') listing)"

text \<open>
  Page sizes. \<^verbatim>\<open>toPt\<close> divides and multiplies by positive constants only; \<open>double\<close> is the
  value of a decimal literal of the source (\<^verbatim>\<open>25.4\<close>, \<^verbatim>\<open>2.54\<close>, \<^verbatim>\<open>595.28\<close>).
\<close>

definition double :: "rat \<Rightarrow> rat" where
  "double x = (case fl x of Num v \<Rightarrow> v | _ \<Rightarrow> x)"

definition divBy :: "number \<Rightarrow> rat \<Rightarrow> number" where
  \<comment> \<open>\<^verbatim>\<open>val / c\<close> for a positive finite constant \<open>c\<close>\<close>
  "divBy val c = (case val of Num v \<Rightarrow> fl (v / c) | _ \<Rightarrow> val)"

definition mulBy :: "number \<Rightarrow> rat \<Rightarrow> number" where
  \<comment> \<open>\<^verbatim>\<open>val * c\<close> for a positive finite constant \<open>c\<close>\<close>
  "mulBy val c = (case val of Num v \<Rightarrow> fl (v * c) | _ \<Rightarrow> val)"

definition toPt :: "number \<Rightarrow> string \<Rightarrow> number" where
  "toPt val unit =
     (if unit = '''' \<or> unit = ''px'' then mulBy (divBy val 96) 72
      else if unit = ''pt'' then val
      else if unit = ''mm'' then mulBy (divBy val (double (254 / 10))) 72
      else if unit = ''cm'' then mulBy (divBy val (double (254 / 100))) 72
      else if unit = ''in'' then mulBy val 72
      else val)"

definition parseFloat :: "string \<Rightarrow> number" where
  \<comment> \<open>the longest prefix, after leading white space, that is a decimal literal\<close>
  "parseFloat s =
     (let t = dropWhile isSpace s;
          neg = (t \<noteq> [] \<and> hd t = CHR ''-'');
          u = (if t \<noteq> [] \<and> (hd t = CHR ''-'' \<or> hd t = CHR ''+'') then tl t else t)
      in if startsWith False ''Infinity'' u then (if neg then NegInf else PosInf)
         else
           (case scanDecimal u of
              None \<Rightarrow> NaN
            | Some ((m, e), rest) \<Rightarrow> fl ((if neg then - 1 else 1) * of_nat m * pow10 e)))"

fun findWord :: "bool \<Rightarrow> atom list \<Rightarrow> bool \<Rightarrow> string \<Rightarrow> (nat \<times> string list) option" where
  \<comment> \<open>the leftmost match of \<^verbatim>\<open>\b\<close> followed by a pattern that starts with a word
      character: the match starts the text or follows a character that is not a word
      character (\<open>prev\<close> tells whether the preceding character is one)\<close>
  "findWord ic re prev [] = None"
| "findWord ic re prev (x # xs) =
     (case (if prev then None else matchHere ic re (x # xs)) of
        Some g \<Rightarrow> Some (0, g)
      | None \<Rightarrow> map_option (\<lambda>(i, g). (Suc i, g)) (findWord ic re (isWord x) xs))"

definition widthRe :: "atom list" where
  \<comment> \<open>\<^verbatim>\<open>/\bwidth="([\d.]+)(\w*)"/i\<close> after the \<^verbatim>\<open>\b\<close>; the captures are entries 1 and 2\<close>
  \<open>widthRe = [Str ''width="'', Plus (\<lambda>c. isDigit c \<or> c = CHR ''.''), Star isWord, Str ''"'']\<close>

definition heightRe :: "atom list" where
  \<comment> \<open>\<^verbatim>\<open>/\bheight="([\d.]+)(\w*)"/i\<close> after the \<^verbatim>\<open>\b\<close>\<close>
  \<open>heightRe = [Str ''height="'', Plus (\<lambda>c. isDigit c \<or> c = CHR ''.''), Star isWord, Str ''"'']\<close>

definition getSvgSize :: "string \<Rightarrow> (number \<times> number) option" where
  \<comment> \<open>\<open>(widthPt, heightPt)\<close>\<close>
  "getSvgSize svg =
     (case findWord True widthRe False svg of
        None \<Rightarrow> None
      | Some (i, w) \<Rightarrow>
          (case findWord True heightRe False svg of
             None \<Rightarrow> None
           | Some (j, h) \<Rightarrow>
               Some (toPt (parseFloat (w ! 1)) (w ! 2), toPt (parseFloat (h ! 1)) (h ! 2))))"

definition a4 :: "number \<times> number" where
  "a4 = (Num (double (59528 / 100)), Num (double (84189 / 100)))"

text \<open>
  \<^verbatim>\<open>svgFolderToPdf\<close>, in the version of the downloader (a PDF streamed to a file) and
  in the version of \<^verbatim>\<open>svg2pdf.ts\<close> (rasterised pages, the file written at the end). The
  file system and the path functions are parameters; what the function does to the
  outside is the list of events it returns beside its result.
\<close>

record files =
  readdir :: "string \<Rightarrow> string list option"
  readFile :: "string \<Rightarrow> string option"
  pathJoin :: "string \<Rightarrow> string \<Rightarrow> string"
  pdfName :: "string \<Rightarrow> string"

datatype event =
    CreateWriteStream string
  | AddPage string number number
  | EndDocument
  | DrawImage string
  | WriteFile string

fun addPages :: "files \<Rightarrow> string \<Rightarrow> string list \<Rightarrow> event list \<Rightarrow> (error + unit) \<times> event list" where
  \<comment> \<open>the loop over \<^verbatim>\<open>svgFiles\<close>, then \<^verbatim>\<open>doc.end()\<close>\<close>
  "addPages fs dir [] evs = (Inr (), evs @ [EndDocument])"
| "addPages fs dir (file # rest) evs =
     (case readFile fs (pathJoin fs dir file) of
        None \<Rightarrow> (Inl (ReadFailed file), evs)
      | Some svg \<Rightarrow>
          (case (case getSvgSize svg of Some sz \<Rightarrow> sz | None \<Rightarrow> a4) of
             (widthPt, heightPt) \<Rightarrow> addPages fs dir rest (evs @ [AddPage file widthPt heightPt])))"

definition svgFolderToPdf :: "files \<Rightarrow> string \<Rightarrow> (error + unit) \<times> event list" where
  "svgFolderToPdf fs dir =
     (case readdir fs dir of
        None \<Rightarrow> (Inl (ReadFailed dir), [])
      | Some listing \<Rightarrow>
          if svgFiles listing = [] then (Inl (NoSvgFiles dir), [])
          else addPages fs dir (svgFiles listing)
                 [CreateWriteStream (pathJoin fs dir (pdfName fs dir))])"

fun drawPages :: "files \<Rightarrow> string \<Rightarrow> string list \<Rightarrow> event list \<Rightarrow> (error + unit) \<times> event list" where
  \<comment> \<open>the loop of \<^verbatim>\<open>svg2pdf.ts\<close>, then \<^verbatim>\<open>fs.writeFile(outFile, ...)\<close>\<close>
  "drawPages fs dir [] evs = (Inr (), evs @ [WriteFile (pathJoin fs dir (pdfName fs dir))])"
| "drawPages fs dir (file # rest) evs =
     (case readFile fs (pathJoin fs dir file) of
        None \<Rightarrow> (Inl (ReadFailed file), evs)
      | Some svg \<Rightarrow> drawPages fs dir rest (evs @ [DrawImage file]))"

definition svgFolderToPdfRaster :: "files \<Rightarrow> string \<Rightarrow> (error + unit) \<times> event list" where
  "svgFolderToPdfRaster fs dir =
     (case readdir fs dir of
        None \<Rightarrow> (Inl (ReadFailed dir), [])
      | Some listing \<Rightarrow>
          if svgFiles listing = [] then (Inl (NoSvgFiles dir), [])
          else drawPages fs dir (svgFiles listing) [])"

section \<open>Properties of the matcher\<close>

lemma eqChar_refl [simp]: "eqChar ic a a"
  by (simp add: eqChar_def)

lemma startsWith_self [simp]: "startsWith ic t (t @ s)"
  by (induction t) auto

lemma canon_fixed: "\<not> isLower c \<Longrightarrow> canon c = c"
  by (simp add: canon_def isLower_def)

lemma canon_upper: "isLower x \<Longrightarrow> isUpper (canon x)"
  by (auto simp add: canon_def isLower_def isUpper_def)

lemma eqChar_exact:
  assumes "\<not> isLower c" "\<not> isUpper c" "eqChar ic c x"
  shows "x = c"
proof (cases "isLower x")
  case True
  then have "isUpper (canon x)" by (rule canon_upper)
  with assms show ?thesis by (auto simp add: eqChar_def canon_fixed split: if_splits)
next
  case False
  with assms show ?thesis by (auto simp add: eqChar_def canon_fixed split: if_splits)
qed

lemma startsWith_char:
  "startsWith ic t s \<Longrightarrow> c \<in> set t \<Longrightarrow> \<not> isLower c \<Longrightarrow> \<not> isUpper c \<Longrightarrow> c \<in> set s"
proof (induction ic t s rule: startsWith.induct)
  case (3 ic d t x s)
  then show ?case by (auto split: if_splits dest: eqChar_exact)
qed auto

lemma matchHere_Cons_Some:
  "matchHere ic (a # r) s = Some g \<Longrightarrow>
     \<exists>n g'. n \<in> set (lengths ic a s) \<and> matchHere ic r (drop n s) = Some g' \<and> g = take n s # g'"
  by (auto dest!: firstSome_Some)

lemma matchHere_needs_char:
  "Str t \<in> set re \<Longrightarrow> c \<in> set t \<Longrightarrow> \<not> isLower c \<Longrightarrow> \<not> isUpper c \<Longrightarrow> c \<notin> set s \<Longrightarrow>
     matchHere ic re s = None"
proof (induction re arbitrary: s)
  case Nil
  then show ?case by simp
next
  case (Cons a r)
  show ?case
  proof (rule ccontr)
    assume "matchHere ic (a # r) s \<noteq> None"
    then obtain g where "matchHere ic (a # r) s = Some g" by auto
    then obtain n g' where n: "n \<in> set (lengths ic a s)" and g': "matchHere ic r (drop n s) = Some g'"
      by (blast dest: matchHere_Cons_Some)
    have notin: "c \<notin> set (drop n s)" using Cons.prems(5) by (auto dest: in_set_dropD)
    show False
    proof (cases "a = Str t")
      case True
      with n have "startsWith ic t s" by (auto split: if_splits)
      with Cons.prems have "c \<in> set s" by (auto dest: startsWith_char)
      with Cons.prems show False by simp
    next
      case False
      with Cons.prems have "Str t \<in> set r" by auto
      from Cons.IH [OF this Cons.prems(2,3,4) notin] g' show False by simp
    qed
  qed
qed

lemma findFirst_None_iff:
  "findFirst ic re s = None \<longleftrightarrow> (\<forall>i \<le> length s. matchHere ic re (drop i s) = None)"
proof (induction s)
  case Nil
  then show ?case by simp
next
  case (Cons x xs)
  have "(\<forall>i \<le> length (x # xs). matchHere ic re (drop i (x # xs)) = None) \<longleftrightarrow>
        matchHere ic re (x # xs) = None \<and> (\<forall>i \<le> length xs. matchHere ic re (drop i xs) = None)"
    (is "?L \<longleftrightarrow> ?R")
  proof
    assume l: ?L
    have "matchHere ic re (drop 0 (x # xs)) = None" using l by blast
    moreover have "\<forall>i \<le> length xs. matchHere ic re (drop i xs) = None"
    proof (intro allI impI)
      fix i assume "i \<le> length xs"
      then have "matchHere ic re (drop (Suc i) (x # xs)) = None" using l by auto
      then show "matchHere ic re (drop i xs) = None" by simp
    qed
    ultimately show ?R by simp
  next
    assume r: ?R
    show ?L
    proof (intro allI impI)
      fix i assume "i \<le> length (x # xs)"
      then show "matchHere ic re (drop i (x # xs)) = None" using r by (cases i) auto
    qed
  qed
  with Cons.IH show ?case by (auto split: option.splits)
qed

lemma findFirst_needs_char:
  assumes "Str t \<in> set re" "c \<in> set t" "\<not> isLower c" "\<not> isUpper c" "c \<notin> set s"
  shows "findFirst ic re s = None"
proof -
  have "matchHere ic re (drop i s) = None" for i
    using assms by (auto intro!: matchHere_needs_char dest: in_set_dropD)
  then show ?thesis by (simp add: findFirst_None_iff)
qed

lemma findFirst_here:
  "matchHere ic re s = Some g \<Longrightarrow> findFirst ic re s = Some (0, g)"
  by (cases s) auto

lemma replaceAll_None:
  "findFirst ic re s = None \<Longrightarrow> replaceAll ic re f s = s"
  by (simp add: replaceAll_def scan.simps)

lemma replaceAll_Some:
  "findFirst ic re s = Some (i, g) \<Longrightarrow> concat g \<noteq> [] \<Longrightarrow>
     replaceAll ic re f s = take i s @ f g @ replaceAll ic re f (drop (i + length (concat g)) s)"
  by (simp add: replaceAll_def scan.simps [of ic re s] Let_def split: prod.splits)

lemma replaceAll_needs_char:
  assumes "Str t \<in> set re" "c \<in> set t" "\<not> isLower c" "\<not> isUpper c" "c \<notin> set s"
  shows "replaceAll ic re f s = s"
  using assms by (auto intro!: replaceAll_None findFirst_needs_char)

lemma matchHere_Plus_only:
  "matchHere ic [Plus P] s = (if takeWhile P s = [] then None else Some [takeWhile P s])"
proof (cases "takeWhile P s = []")
  case True
  then show ?thesis by simp
next
  case False
  then have "1 \<le> length (takeWhile P s)" by (cases "takeWhile P s") auto
  moreover have "take (length (takeWhile P s)) s = takeWhile P s"
    by (rule takeWhile_eq_take [symmetric])
  ultimately show ?thesis using False by simp
qed

lemma splitFrom_entry:
  "\<forall>c \<in> set e. \<not> P c \<Longrightarrow> splitFrom ic [Plus P] cur (e @ rest) = splitFrom ic [Plus P] (cur @ e) rest"
proof (induction e arbitrary: cur)
  case Nil
  then show ?case by simp
next
  case (Cons x e)
  then have "splitFrom ic [Plus P] cur ((x # e) @ rest) = splitFrom ic [Plus P] (cur @ [x]) (e @ rest)"
    by (simp add: matchHere_Plus_only del: matchHere.simps)
  also have "\<dots> = splitFrom ic [Plus P] ((cur @ [x]) @ e) rest"
    using Cons.prems by (intro Cons.IH) simp
  finally show ?case by simp
qed

lemma splitFrom_sep:
  assumes "sp \<noteq> []" "\<forall>c \<in> set sp. P c" "rest \<noteq> []" "\<not> P (hd rest)"
  shows "splitFrom ic [Plus P] cur (sp @ rest) = cur # splitFrom ic [Plus P] [] rest"
proof -
  from assms obtain x xs where sp: "sp = x # xs" by (cases sp) auto
  from assms obtain y ys where rest: "rest = y # ys" by (cases rest) auto
  have tw: "takeWhile P (sp @ rest) = sp"
    using assms rest by (simp add: takeWhile_append2)
  have "matchHere ic [Plus P] (sp @ rest) = Some [sp]"
    using tw assms(1) by (simp add: matchHere_Plus_only del: matchHere.simps)
  then have "matchHere ic [Plus P] (x # xs @ rest) = Some [x # xs]"
    using sp by simp
  then have "splitFrom ic [Plus P] cur (x # xs @ rest) = cur # splitFrom ic [Plus P] [] rest"
    by simp
  then show ?thesis using sp by simp
qed

fun weave :: "string list \<Rightarrow> string list \<Rightarrow> string" where
  "weave [] seps = []"
| "weave [e] seps = e"
| "weave (e # e' # es) [] = e @ weave (e' # es) []"
| "weave (e # e' # es) (sp # seps) = e @ sp @ weave (e' # es) seps"

lemma splitFrom_weave:
  assumes "es \<noteq> []" "length seps + 1 = length es"
    "\<forall>e \<in> set es. e \<noteq> [] \<and> (\<forall>c \<in> set e. \<not> P c)"
    "\<forall>sp \<in> set seps. sp \<noteq> [] \<and> (\<forall>c \<in> set sp. P c)"
  shows "splitFrom ic [Plus P] [] (weave es seps) = es"
  using assms
proof (induction es seps rule: weave.induct)
  case (1 seps)
  then show ?case by simp
next
  case (2 e seps)
  have "splitFrom ic [Plus P] [] (e @ []) = splitFrom ic [Plus P] ([] @ e) []"
    using 2 by (intro splitFrom_entry) simp
  then show ?case by simp
next
  case (3 e e' es)
  then show ?case by simp
next
  case (4 e e' es sp seps)
  let ?rest = "weave (e' # es) seps"
  have hd: "?rest \<noteq> [] \<and> \<not> P (hd ?rest)"
  proof (cases es)
    case Nil
    with 4 show ?thesis by (cases e') auto
  next
    case (Cons a list)
    with 4 show ?thesis by (cases e'; cases seps) auto
  qed
  have "splitFrom ic [Plus P] [] (weave (e # e' # es) (sp # seps)) =
        splitFrom ic [Plus P] ([] @ e) (sp @ ?rest)"
    using 4 by (simp add: splitFrom_entry del: splitFrom.simps)
  also have "\<dots> = e # splitFrom ic [Plus P] [] ?rest"
    using 4 hd by (simp add: splitFrom_sep del: splitFrom.simps)
  also have "splitFrom ic [Plus P] [] ?rest = e' # es"
    using 4 by (intro "4.IH") auto
  finally show ?case .
qed

lemma weave_nonempty:
  "es \<noteq> [] \<Longrightarrow> \<forall>e \<in> set es. e \<noteq> [] \<Longrightarrow> weave es seps \<noteq> []"
  by (induction es seps rule: weave.induct) auto

lemma fixList_weave:
  assumes "es \<noteq> []" "length seps + 1 = length es"
    "\<forall>e \<in> set es. e \<noteq> [] \<and> (\<forall>c \<in> set e. \<not> isSep c)"
    "\<forall>sp \<in> set seps. sp \<noteq> [] \<and> (\<forall>c \<in> set sp. isSep c)"
  shows "fixList (weave es seps) = join '' '' (map fixEntry es)"
proof -
  have "weave es seps \<noteq> []" using assms by (intro weave_nonempty) auto
  then show ?thesis using assms by (simp add: fixList_def split_def splitFrom_weave)
qed

lemma firstSome_rev_upt:
  "f k = Some y \<Longrightarrow> j \<le> k \<Longrightarrow> firstSome f (rev [j ..< Suc k]) = Some y"
  by simp

lemma matchHere_Star_all:
  assumes "\<forall>c \<in> set v. P c" "rest = [] \<or> \<not> P (hd rest)"
    "matchHere ic r rest = Some g"
  shows "matchHere ic (Star P # r) (v @ rest) = Some (v # g)"
proof -
  have tw: "takeWhile P (v @ rest) = v"
    using assms(1,2) by (cases rest) (auto simp add: takeWhile_append2)
  have "firstSome (\<lambda>n. map_option ((#) (take n (v @ rest))) (matchHere ic r (drop n (v @ rest))))
          (rev [0 ..< Suc (length v)]) = Some (v # g)"
    by (rule firstSome_rev_upt) (simp_all add: assms(3))
  then show ?thesis using tw by simp
qed

lemma matchHere_Plus_all:
  assumes "v \<noteq> []" "\<forall>c \<in> set v. P c" "rest = [] \<or> \<not> P (hd rest)"
    "matchHere ic r rest = Some g"
  shows "matchHere ic (Plus P # r) (v @ rest) = Some (v # g)"
proof -
  have tw: "takeWhile P (v @ rest) = v"
    using assms(2,3) by (cases rest) (auto simp add: takeWhile_append2)
  have "1 \<le> length v" using assms(1) by (cases v) auto
  then have "firstSome (\<lambda>n. map_option ((#) (take n (v @ rest))) (matchHere ic r (drop n (v @ rest))))
          (rev [1 ..< Suc (length v)]) = Some (v # g)"
    by (intro firstSome_rev_upt) (simp_all add: assms(4))
  then show ?thesis using tw by simp
qed

lemma matchHere_Str:
  "matchHere ic (Str t # r) (t @ rest) = map_option ((#) t) (matchHere ic r rest)"
  by (cases "matchHere ic r rest") simp_all

lemma matchHere_dashAttr:
  assumes "dquote \<notin> set v"
  shows \<open>matchHere True dashAttr (''stroke-dasharray="'' @ v @ ''"'' @ rest) =
           Some [''stroke-dasharray="'', v, ''"'']\<close>
proof -
  have \<open>matchHere True [Str ''"''] (''"'' @ rest) = Some [''"'']\<close>
    by (simp only: matchHere_Str) simp
  then have \<open>matchHere True [Star (\<lambda>c. c \<noteq> dquote), Str ''"''] (v @ ''"'' @ rest) = Some [v, ''"'']\<close>
    using assms by (intro matchHere_Star_all) (auto simp add: dquote_def)
  then show ?thesis
    unfolding dashAttr_def by (simp only: matchHere_Str) simp
qed

lemma matchHere_dashStyle:
  assumes "v \<noteq> []" "\<not> isSpace (hd v)"
    "\<forall>c \<in> set v. c \<noteq> CHR '';'' \<and> c \<noteq> dquote \<and> c \<noteq> squote"
    "rest = [] \<or> hd rest = CHR '';'' \<or> hd rest = dquote \<or> hd rest = squote"
  shows "matchHere True dashStyle (''stroke-dasharray:'' @ v @ rest) =
           Some [''stroke-dasharray'', [], '':'', [], v]"
proof -
  let ?P = "\<lambda>c. c \<noteq> CHR '';'' \<and> c \<noteq> dquote \<and> c \<noteq> squote"
  have 1: "matchHere True [Plus ?P] (v @ rest) = Some [v]"
    using assms by (intro matchHere_Plus_all) auto
  have "matchHere True [Star isSpace, Plus ?P] ([] @ v @ rest) = Some [[], v]"
    using assms 1 by (intro matchHere_Star_all) (cases v; auto)+
  then have 2: "matchHere True [Str '':'', Star isSpace, Plus ?P] ('':'' @ v @ rest) = Some ['':'', [], v]"
    by (simp only: matchHere_Str) simp
  have "matchHere True [Star isSpace, Str '':'', Star isSpace, Plus ?P] ([] @ '':'' @ v @ rest)
          = Some [[], '':'', [], v]"
    using 2 by (intro matchHere_Star_all) (auto simp add: isSpace_def)
  then have "matchHere True dashStyle (''stroke-dasharray'' @ '':'' @ v @ rest)
          = Some [''stroke-dasharray'', [], '':'', [], v]"
    unfolding dashStyle_def by (simp only: matchHere_Str) simp
  then show ?thesis by simp
qed

lemma replaceAll_Nil:
  "matchHere ic re [] = None \<Longrightarrow> replaceAll ic re f [] = []"
  by (simp add: replaceAll_None)

lemma replaceAll_whole:
  assumes "matchHere ic re s = Some g" "concat g = s" "s \<noteq> []" "matchHere ic re [] = None"
  shows "replaceAll ic re f s = f g"
proof -
  have "findFirst ic re s = Some (0, g)" using assms(1) by (rule findFirst_here)
  then have "replaceAll ic re f s = take 0 s @ f g @ replaceAll ic re f (drop (0 + length (concat g)) s)"
    using assms(2,3) by (intro replaceAll_Some) auto
  then show ?thesis using assms(2,4) by (simp add: replaceAll_Nil)
qed

lemma fixDashArrays_attr:
  assumes "dquote \<notin> set v" "CHR '':'' \<notin> set (fixList v)"
  shows \<open>fixDashArrays (''stroke-dasharray="'' @ v @ ''"'') =
           ''stroke-dasharray="'' @ fixList v @ ''"''\<close>
proof -
  let ?s = \<open>''stroke-dasharray="'' @ v @ ''"''\<close>
  let ?f = \<open>\<lambda>g. ''stroke-dasharray="'' @ fixList (g ! 1) @ ''"''\<close>
  have m: \<open>matchHere True dashAttr (''stroke-dasharray="'' @ v @ ''"'' @ []) =
           Some [''stroke-dasharray="'', v, ''"'']\<close>
    using assms(1) by (rule matchHere_dashAttr)
  have e: "matchHere True dashAttr [] = None" by (simp add: dashAttr_def)
  have 1: \<open>replaceAll True dashAttr ?f ?s = ?f [''stroke-dasharray="'', v, ''"'']\<close>
    using m e by (intro replaceAll_whole) simp_all
  have 2: \<open>replaceAll True dashStyle h (''stroke-dasharray="'' @ fixList v @ ''"'') =
             ''stroke-dasharray="'' @ fixList v @ ''"''\<close> for h
    using assms(2)
    by (intro replaceAll_needs_char [where t = "'':''" and c = "CHR '':''"])
       (simp_all add: dashStyle_def isLower_def isUpper_def)
  show ?thesis using 1 2 by (simp add: fixDashArrays_def)
qed

lemma fixDashArrays_style:
  assumes "v \<noteq> []" "\<not> isSpace (hd v)"
    "\<forall>c \<in> set v. c \<noteq> CHR '';'' \<and> c \<noteq> dquote \<and> c \<noteq> squote"
  shows "fixDashArrays (''stroke-dasharray:'' @ v) = ''stroke-dasharray:'' @ fixList v"
proof -
  let ?s = "''stroke-dasharray:'' @ v"
  let ?f = "\<lambda>g. ''stroke-dasharray:'' @ fixList (g ! 4)"
  have 1: "replaceAll True dashAttr h ?s = ?s" for h
    using assms(3)
    by (intro replaceAll_needs_char [where t = \<open>''stroke-dasharray="''\<close> and c = dquote])
       (auto simp add: dashAttr_def isLower_def isUpper_def dquote_def)
  have m: "matchHere True dashStyle (''stroke-dasharray:'' @ v @ []) =
             Some [''stroke-dasharray'', [], '':'', [], v]"
    using assms by (intro matchHere_dashStyle) auto
  have e: "matchHere True dashStyle [] = None" by (simp add: dashStyle_def)
  have 2: "replaceAll True dashStyle ?f ?s = ?f [''stroke-dasharray'', [], '':'', [], v]"
    using m e by (intro replaceAll_whole) simp_all
  show ?thesis using 1 2 by (simp add: fixDashArrays_def)
qed

lemma set_join: "set (join sep xs) \<subseteq> set sep \<union> \<Union> (set ` set xs)"
  by (induction sep xs rule: join.induct) auto

lemma set_weave: "set (weave es seps) \<subseteq> \<Union> (set ` set es) \<union> \<Union> (set ` set seps)"
  by (induction es seps rule: weave.induct) auto

lemma hd_weave: "es \<noteq> [] \<Longrightarrow> hd es \<noteq> [] \<Longrightarrow> hd (weave es seps) = hd (hd es)"
  by (induction es seps rule: weave.induct) auto

lemma set_fixEntry: "set (fixEntry e) \<subseteq> set e \<union> set ''0.001''"
  by (auto simp add: fixEntry_def)

section \<open>The dash-array fix: entries and separators\<close>

lemma entry_chars:
  assumes "\<forall>e \<in> set es. e \<noteq> [] \<and>
       (\<forall>c \<in> set e. \<not> isSpace c \<and> c \<notin> set [CHR '','', CHR '';'', CHR '':'', dquote, squote])"
    "e \<in> set es" "c \<in> set e"
  shows "\<not> isSpace c" "c \<noteq> CHR '',''" "c \<noteq> CHR '';''" "c \<noteq> CHR '':''" "c \<noteq> dquote" "c \<noteq> squote"
proof -
  from assms have "\<not> isSpace c \<and> c \<notin> set [CHR '','', CHR '';'', CHR '':'', dquote, squote]"
    by blast
  then show "\<not> isSpace c" "c \<noteq> CHR '',''" "c \<noteq> CHR '';''" "c \<noteq> CHR '':''" "c \<noteq> dquote" "c \<noteq> squote"
    by simp_all
qed

lemma sep_chars:
  assumes "\<forall>sp \<in> set seps. sp \<noteq> [] \<and> (\<forall>c \<in> set sp. c = CHR '','' \<or> c = CHR '' '')"
    "sp \<in> set seps" "c \<in> set sp"
  shows "isSep c" "c \<noteq> CHR '';''" "c \<noteq> CHR '':''" "c \<noteq> dquote" "c \<noteq> squote"
proof -
  from assms have "c = CHR '','' \<or> c = CHR '' ''" by blast
  then show "isSep c" "c \<noteq> CHR '';''" "c \<noteq> CHR '':''" "c \<noteq> dquote" "c \<noteq> squote"
    by (auto simp add: isSep_def dquote_def squote_def)
qed

lemma space_is_space: "isSpace CHR '' ''"
  by (simp add: isSpace_def)

text \<open>
  A value that is the whole text: entries \<open>es\<close> separated by non-empty runs of commas and
  spaces \<open>seps\<close>, in the attribute and in the style property.
\<close>

lemma fixDashArrays_entries:
  assumes "es \<noteq> []" "length seps + 1 = length es"
    "\<forall>e \<in> set es. e \<noteq> [] \<and>
       (\<forall>c \<in> set e. \<not> isSpace c \<and> c \<notin> set [CHR '','', CHR '';'', CHR '':'', dquote, squote])"
    "\<forall>sp \<in> set seps. sp \<noteq> [] \<and> (\<forall>c \<in> set sp. c = CHR '','' \<or> c = CHR '' '')"
  shows \<open>fixList (weave es seps) =
           join '' '' (map (\<lambda>e. if toNumber e = Num 0 then ''0.001'' else e) es) \<and>
         fixDashArrays (''stroke-dasharray="'' @ weave es seps @ ''"'') =
           ''stroke-dasharray="'' @
           join '' '' (map (\<lambda>e. if toNumber e = Num 0 then ''0.001'' else e) es) @ ''"'' \<and>
         fixDashArrays (''stroke-dasharray:'' @ weave es seps) =
           ''stroke-dasharray:'' @
           join '' '' (map (\<lambda>e. if toNumber e = Num 0 then ''0.001'' else e) es)\<close>
proof -
  let ?v = "weave es seps"
  let ?out = "join '' '' (map fixEntry es)"
  have fe: "map (\<lambda>e. if toNumber e = Num 0 then ''0.001'' else e) es = map fixEntry es"
    by (simp add: fixEntry_def)
  have entries: "\<forall>e \<in> set es. e \<noteq> [] \<and> (\<forall>c \<in> set e. \<not> isSep c)"
  proof (intro ballI conjI)
    fix e assume "e \<in> set es"
    then show "e \<noteq> []" using assms(3) by blast
  next
    fix e c assume e: "e \<in> set es" and c: "c \<in> set e"
    have "\<not> isSpace c" "c \<noteq> CHR '',''" using assms(3) e c by (rule entry_chars)+
    then show "\<not> isSep c" using space_is_space by (auto simp add: isSep_def)
  qed
  have seps: "\<forall>sp \<in> set seps. sp \<noteq> [] \<and> (\<forall>c \<in> set sp. isSep c)"
  proof (intro ballI conjI)
    fix sp assume "sp \<in> set seps"
    then show "sp \<noteq> []" using assms(4) by blast
  next
    fix sp c assume "sp \<in> set seps" "c \<in> set sp"
    with assms(4) show "isSep c" by (rule sep_chars)
  qed
  have list: "fixList ?v = ?out"
    using assms(1,2) entries seps by (rule fixList_weave)
  have chars: "c \<noteq> CHR '';'' \<and> c \<noteq> CHR '':'' \<and> c \<noteq> dquote \<and> c \<noteq> squote" if "c \<in> set ?v" for c
  proof -
    from that set_weave have "c \<in> \<Union> (set ` set es) \<union> \<Union> (set ` set seps)" by blast
    then consider e where "e \<in> set es" "c \<in> set e" | sp where "sp \<in> set seps" "c \<in> set sp"
      by blast
    then show ?thesis
    proof cases
      case 1
      then show ?thesis using entry_chars [OF assms(3)] by blast
    next
      case 2
      then show ?thesis using sep_chars [OF assms(4)] by blast
    qed
  qed
  have nocolon: "CHR '':'' \<notin> set (fixList ?v)"
  proof
    assume "CHR '':'' \<in> set (fixList ?v)"
    then have "CHR '':'' \<in> set '' '' \<union> \<Union> (set ` set (map fixEntry es))"
      using list set_join by fastforce
    then obtain e where e: "e \<in> set es" "CHR '':'' \<in> set (fixEntry e)" by auto
    then have "CHR '':'' \<in> set e \<union> set ''0.001''" using set_fixEntry by blast
    then have "CHR '':'' \<in> set e" by simp
    then show False using entry_chars(4) [OF assms(3) e(1)] by blast
  qed
  have noquote: "dquote \<notin> set ?v" using chars by blast
  have attr: \<open>fixDashArrays (''stroke-dasharray="'' @ ?v @ ''"'') =
                ''stroke-dasharray="'' @ fixList ?v @ ''"''\<close>
    using noquote nocolon by (rule fixDashArrays_attr)
  have "\<forall>e \<in> set es. e \<noteq> []" using entries by blast
  with assms(1) have ne: "?v \<noteq> []" by (rule weave_nonempty)
  have hdes: "hd es \<in> set es" using assms(1) by simp
  then have hne: "hd es \<noteq> []" using assms(3) by blast
  then have "hd (hd es) \<in> set (hd es)" by simp
  then have "\<not> isSpace (hd (hd es))" using entry_chars(1) [OF assms(3) hdes] by blast
  then have hd: "\<not> isSpace (hd ?v)" using assms(1) hne by (simp add: hd_weave)
  have "\<forall>c \<in> set ?v. c \<noteq> CHR '';'' \<and> c \<noteq> dquote \<and> c \<noteq> squote" using chars by blast
  with ne hd have style: "fixDashArrays (''stroke-dasharray:'' @ ?v) = ''stroke-dasharray:'' @ fixList ?v"
    by (rule fixDashArrays_style)
  show ?thesis unfolding fe using list attr style by (simp only: simp_thms)
qed

lemma toNumber_examples:
  "toNumber ''0'' = Num 0" "toNumber ''5'' = Num 5" "toNumber ''0.0'' = Num 0"
  "toNumber ''2.5'' = Num (5 / 2)"
  by code_simp+

text \<open>The entries \<^verbatim>\<open>0\<close>, \<^verbatim>\<open>5\<close>, \<^verbatim>\<open>0.0\<close>, \<^verbatim>\<open>2.5\<close> with three different separators.\<close>

lemma fixDashArrays_entries_example:
  \<open>fixList ''0, 5 0.0,2.5'' = ''0.001 5 0.001 2.5'' \<and>
   fixDashArrays ''stroke-dasharray="0, 5 0.0,2.5"'' = ''stroke-dasharray="0.001 5 0.001 2.5"'' \<and>
   fixDashArrays ''stroke-dasharray:0, 5 0.0,2.5'' = ''stroke-dasharray:0.001 5 0.001 2.5''\<close>
proof -
  have 1: "[''0'', ''5'', ''0.0'', ''2.5''] \<noteq> []" by simp
  have 2: "length ['', '', '' '', '',''] + 1 = length [''0'', ''5'', ''0.0'', ''2.5'']" by simp
  have 3: "\<forall>e \<in> set [''0'', ''5'', ''0.0'', ''2.5'']. e \<noteq> [] \<and>
       (\<forall>c \<in> set e. \<not> isSpace c \<and> c \<notin> set [CHR '','', CHR '';'', CHR '':'', dquote, squote])"
    by (simp add: isSpace_def dquote_def squote_def)
  have 4: "\<forall>sp \<in> set ['', '', '' '', '','']. sp \<noteq> [] \<and> (\<forall>c \<in> set sp. c = CHR '','' \<or> c = CHR '' '')"
    by simp
  show ?thesis
    using fixDashArrays_entries [OF 1 2 3 4] by (simp add: toNumber_examples)
qed

lemma trimWs_spaces:
  assumes "list_all isSpace e"
  shows "trimWs e = []"
proof -
  have d: "dropWhile isSpace e = []" using assms by (simp add: list_all_iff)
  show ?thesis unfolding trimWs_def d by simp
qed

section \<open>Extracting markup: the span returned\<close>

text \<open>An occurrence of a text at an index: compared exactly, or without regard to the case
  of ASCII letters.\<close>

definition occursAt :: "bool \<Rightarrow> string \<Rightarrow> string \<Rightarrow> nat \<Rightarrow> bool" where
  "occursAt ic pat text i = (i \<le> length text \<and> startsWith ic pat (drop i text))"

lemma findFirst_Some:
  "findFirst ic re s = Some (i, g) \<Longrightarrow>
     i \<le> length s \<and> matchHere ic re (drop i s) = Some g \<and>
     (\<forall>k < i. matchHere ic re (drop k s) = None)"
proof (induction s arbitrary: i)
  case Nil
  then show ?case by auto
next
  case (Cons x xs)
  show ?case
  proof (cases "matchHere ic re (x # xs)")
    case (Some g')
    with Cons.prems show ?thesis by auto
  next
    case None
    with Cons.prems obtain j where j: "findFirst ic re xs = Some (j, g)" and i: "i = Suc j"
      by auto
    from Cons.IH [OF j] have ih: "j \<le> length xs" "matchHere ic re (drop j xs) = Some g"
      "\<forall>k < j. matchHere ic re (drop k xs) = None" by auto
    have "matchHere ic re (drop k (x # xs)) = None" if "k < i" for k
      using that None ih(3) i by (cases k) auto
    with ih i show ?thesis by auto
  qed
qed

lemma indexOf_Some:
  "indexOf pat s = Some j \<Longrightarrow>
     j \<le> length s \<and> startsWith False pat (drop j s) \<and>
     (\<forall>k < j. \<not> startsWith False pat (drop k s))"
proof (induction s arbitrary: j)
  case Nil
  then show ?case by (auto split: if_splits)
next
  case (Cons x xs)
  show ?case
  proof (cases "startsWith False pat (x # xs)")
    case True
    with Cons.prems show ?thesis by auto
  next
    case False
    with Cons.prems obtain i where i: "indexOf pat xs = Some i" and j: "j = Suc i"
      by auto
    from Cons.IH [OF i] have ih: "i \<le> length xs" "startsWith False pat (drop i xs)"
      "\<forall>k < i. \<not> startsWith False pat (drop k xs)" by auto
    have "\<not> startsWith False pat (drop k (x # xs))" if "k < j" for k
      using that False ih(3) j by (cases k) auto
    with ih j show ?thesis by auto
  qed
qed

lemma indexOf_None:
  "indexOf pat s = None \<Longrightarrow> k \<le> length s \<Longrightarrow> \<not> startsWith False pat (drop k s)"
proof (induction s arbitrary: k)
  case Nil
  then show ?case by (cases pat) (auto split: if_splits)
next
  case (Cons x xs)
  then show ?case by (cases k) (auto split: if_splits)
qed

lemma startsWith_exact_gen:
  "startsWith ic p s \<Longrightarrow> \<not> ic \<Longrightarrow> take (length p) s = p"
  by (induction ic p s rule: startsWith.induct) (auto simp add: eqChar_def split: if_splits)

lemma startsWith_exact: "startsWith False p s \<Longrightarrow> take (length p) s = p"
  using startsWith_exact_gen [of False p s] by simp

lemma takeWhile_True [simp]: "takeWhile (\<lambda>c. True) u = u"
  by (induction u) auto

lemma startsWith_take:
  "startsWith ic p s \<Longrightarrow> length p \<le> n \<Longrightarrow> startsWith ic p (take n s)"
proof (induction ic p s arbitrary: n rule: startsWith.induct)
  case (3 ic c t x s)
  then show ?case by (cases n) (auto split: if_splits)
qed auto

lemma eqChar_gt [simp]: "eqChar ic CHR ''>'' x \<longleftrightarrow> x = CHR ''>''"
proof
  assume "eqChar ic CHR ''>'' x"
  then show "x = CHR ''>''"
    by (rule eqChar_exact [rotated 2]) (simp_all add: isLower_def isUpper_def)
qed simp

lemma matchHere_Str_iff:
  "matchHere ic (Str t # r) s =
     (if startsWith ic t s then map_option ((#) (take (length t) s)) (matchHere ic r (drop (length t) s))
      else None)"
  by (cases "matchHere ic r (drop (length t) s)") simp_all

lemma matchHere_Str_Some_iff:
  "matchHere ic (Str t # r) s \<noteq> None \<longleftrightarrow>
     startsWith ic t s \<and> matchHere ic r (drop (length t) s) \<noteq> None"
  by (simp only: matchHere_Str_iff) (simp del: matchHere.simps)

lemma firstSome_not_None:
  "firstSome f xs \<noteq> None \<longleftrightarrow> (\<exists>x \<in> set xs. f x \<noteq> None)"
  by (induction xs) (auto split: option.splits)

lemma matchHere_lazy_gt:
  "matchHere ic [Lazy (\<lambda>c. True), Str ''>''] u \<noteq> None \<longleftrightarrow> CHR ''>'' \<in> set u"
proof -
  let ?f = "\<lambda>n. map_option ((#) (take n u)) (matchHere ic [Str ''>''] (drop n u))"
  have f: "?f n \<noteq> None \<longleftrightarrow> n < length u \<and> u ! n = CHR ''>''" for n
  proof (cases "drop n u")
    case Nil
    then show ?thesis by simp
  next
    case (Cons x xs)
    then have n: "n < length u" by (cases "n < length u") auto
    then have "u ! n = x" using Cons by (metis Cons_nth_drop_Suc list.inject)
    with Cons n show ?thesis by simp
  qed
  have eq: "matchHere ic [Lazy (\<lambda>c. True), Str ''>''] u = firstSome ?f [0 ..< Suc (length u)]"
    by simp
  have "firstSome ?f xs \<noteq> None \<longleftrightarrow> (\<exists>n \<in> set xs. ?f n \<noteq> None)" for xs
    by (rule firstSome_not_None)
  then have "matchHere ic [Lazy (\<lambda>c. True), Str ''>''] u \<noteq> None \<longleftrightarrow>
             (\<exists>n \<in> set [0 ..< Suc (length u)]. ?f n \<noteq> None)"
    by (simp only: eq)
  also have "\<dots> \<longleftrightarrow> (\<exists>n < length u. u ! n = CHR ''>'')"
    using f by auto
  also have "\<dots> \<longleftrightarrow> CHR ''>'' \<in> set u"
    by (auto simp add: in_set_conv_nth)
  finally show ?thesis .
qed

lemma matchHere_svgOpen:
  "matchHere True svgOpen s \<noteq> None \<longleftrightarrow> startsWith True ''<svg'' s \<and> CHR ''>'' \<in> set (drop 4 s)"
proof -
  have "length ''<svg'' = 4" by simp
  then have "matchHere True svgOpen s \<noteq> None \<longleftrightarrow>
        startsWith True ''<svg'' s \<and> matchHere True [Lazy (\<lambda>c. True), Str ''>''] (drop 4 s) \<noteq> None"
    unfolding svgOpen_def by (simp only: matchHere_Str_Some_iff)
  then show ?thesis by (simp only: matchHere_lazy_gt)
qed

lemma nth_in_drop: "k < length xs \<Longrightarrow> n \<le> k \<Longrightarrow> xs ! k \<in> set (drop n xs)"
proof -
  assume k: "k < length xs" and n: "n \<le> k"
  then have "drop n xs ! (k - n) = xs ! k" by simp
  moreover have "k - n < length (drop n xs)" using k n by simp
  ultimately show ?thesis by (metis nth_mem)
qed

lemma close_has_gt:
  assumes "occursAt False ''</svg>'' text j" "i \<le> j"
  shows "CHR ''>'' \<in> set (drop 4 (drop i text))"
proof -
  from assms(1) have sw: "startsWith False ''</svg>'' (drop j text)" by (simp add: occursAt_def)
  then have t: "take (length ''</svg>'') (drop j text) = ''</svg>''" by (rule startsWith_exact)
  from sw have len: "length ''</svg>'' \<le> length (drop j text)" by (rule startsWith_length)
  then have lt: "j + 5 < length text" by simp
  have "take (length ''</svg>'') (drop j text) ! 5 = drop j text ! 5" by simp
  with t have "drop j text ! 5 = CHR ''>''" by simp
  then have "text ! (j + 5) = CHR ''>''" using lt by simp
  moreover have "text ! (j + 5) \<in> set (drop (i + 4) text)"
    using lt assms(2) by (intro nth_in_drop) auto
  ultimately show ?thesis by (simp add: add.commute)
qed

lemma open_matches:
  assumes "occursAt True ''<svg'' text i" "occursAt False ''</svg>'' text j" "i \<le> j"
  shows "matchHere True svgOpen (drop i text) \<noteq> None"
  using assms close_has_gt [OF assms(2,3)]
  by (simp only: matchHere_svgOpen) (simp add: occursAt_def)

lemma matches_open:
  assumes "matchHere True svgOpen (drop i text) = Some g" "i \<le> length text"
  shows "occursAt True ''<svg'' text i"
proof -
  from assms(1) have "matchHere True svgOpen (drop i text) \<noteq> None" by simp
  then have "startsWith True ''<svg'' (drop i text)" by (simp only: matchHere_svgOpen)
  with assms(2) show ?thesis by (simp add: occursAt_def)
qed

lemma extract_cases:
  "extractSvgMarkup text = None \<and>
     (findFirst True svgOpen text = None \<or>
      (\<exists>start g. findFirst True svgOpen text = Some (start, g) \<and>
         indexOf ''</svg>'' (drop start text) = None)) \<or>
   (\<exists>start g j. findFirst True svgOpen text = Some (start, g) \<and>
      indexOf ''</svg>'' (drop start text) = Some j \<and>
      extractSvgMarkup text = Some (take (j + 6) (drop start text)))"
  by (auto simp add: extractSvgMarkup_def indexOfFrom_def slice_def split: option.splits)

lemma extract_None_iff:
  "extractSvgMarkup text = None \<longleftrightarrow>
     \<not> (\<exists>i j. i \<le> j \<and> occursAt True ''<svg'' text i \<and> occursAt False ''</svg>'' text j)"
proof
  assume none: "extractSvgMarkup text = None"
  show "\<not> (\<exists>i j. i \<le> j \<and> occursAt True ''<svg'' text i \<and> occursAt False ''</svg>'' text j)"
  proof
    assume "\<exists>i j. i \<le> j \<and> occursAt True ''<svg'' text i \<and> occursAt False ''</svg>'' text j"
    then obtain i j where ij: "i \<le> j" and o: "occursAt True ''<svg'' text i"
      and c: "occursAt False ''</svg>'' text j" by blast
    have m: "matchHere True svgOpen (drop i text) \<noteq> None" using o c ij by (rule open_matches)
    have il: "i \<le> length text" using o by (simp add: occursAt_def)
    have "findFirst True svgOpen text \<noteq> None"
      using m il by (auto simp add: findFirst_None_iff)
    then obtain start g where f: "findFirst True svgOpen text = Some (start, g)" by auto
    have nomatch: "\<forall>k < start. matchHere True svgOpen (drop k text) = None"
      using findFirst_Some [OF f] by simp
    have si: "start \<le> i"
    proof (rule ccontr)
      assume "\<not> start \<le> i"
      then have "i < start" by simp
      then have "matchHere True svgOpen (drop i text) = None" by (rule nomatch [rule_format])
      with m show False by simp
    qed
    from none f have "indexOf ''</svg>'' (drop start text) = None"
      using extract_cases [of "text"] by auto
    moreover have "j - start \<le> length (drop start text)"
      using c by (auto simp add: occursAt_def)
    ultimately have "\<not> startsWith False ''</svg>'' (drop (j - start) (drop start text))"
      by (rule indexOf_None)
    moreover have "drop (j - start) (drop start text) = drop j text" using si ij by simp
    ultimately show False using c by (simp add: occursAt_def)
  qed
next
  assume no: "\<not> (\<exists>i j. i \<le> j \<and> occursAt True ''<svg'' text i \<and> occursAt False ''</svg>'' text j)"
  show "extractSvgMarkup text = None"
  proof (rule ccontr)
    assume "extractSvgMarkup text \<noteq> None"
    then obtain start g j where f: "findFirst True svgOpen text = Some (start, g)"
      and ix: "indexOf ''</svg>'' (drop start text) = Some j"
      using extract_cases [of "text"] by auto
    have sl: "start \<le> length text" and m: "matchHere True svgOpen (drop start text) = Some g"
      using findFirst_Some [OF f] by auto
    have o: "occursAt True ''<svg'' text start" using m sl by (rule matches_open)
    have "j \<le> length (drop start text)" "startsWith False ''</svg>'' (drop j (drop start text))"
      using indexOf_Some [OF ix] by auto
    then have "occursAt False ''</svg>'' text (start + j)"
      using sl by (auto simp add: occursAt_def add.commute)
    with o no show False by (meson le_add1)
  qed
qed

lemma extract_Some:
  assumes "extractSvgMarkup text = Some r"
  shows "\<exists>i j. i \<le> j \<and> occursAt True ''<svg'' text i \<and>
           (\<forall>k < i. \<not> occursAt True ''<svg'' text k) \<and>
           occursAt False ''</svg>'' text j \<and>
           (\<forall>k. i \<le> k \<and> k < j \<longrightarrow> \<not> occursAt False ''</svg>'' text k) \<and>
           r = slice text i (j + 6) \<and>
           startsWith True ''<svg'' r \<and> endsWith r ''</svg>''"
proof -
  from assms obtain start g j where f: "findFirst True svgOpen text = Some (start, g)"
    and ix: "indexOf ''</svg>'' (drop start text) = Some j"
    and r: "r = take (j + 6) (drop start text)"
    using extract_cases [of "text"] by auto
  let ?u = "drop start text"
  have sl: "start \<le> length text" and m: "matchHere True svgOpen ?u = Some g"
    and first: "\<forall>k < start. matchHere True svgOpen (drop k text) = None"
    using findFirst_Some [OF f] by auto
  have o: "occursAt True ''<svg'' text start" using m sl by (rule matches_open)
  have jl: "j \<le> length ?u" and sw: "startsWith False ''</svg>'' (drop j ?u)"
    and jmin: "\<forall>k < j. \<not> startsWith False ''</svg>'' (drop k ?u)"
    using indexOf_Some [OF ix] by auto
  have c: "occursAt False ''</svg>'' text (start + j)"
    using jl sw sl by (auto simp add: occursAt_def add.commute)
  have nofirst: "\<not> occursAt True ''<svg'' text k" if "k < start" for k
  proof
    assume ok: "occursAt True ''<svg'' text k"
    have "k \<le> start + j" using that by simp
    with ok c have "matchHere True svgOpen (drop k text) \<noteq> None"
      by (rule open_matches)
    moreover have "matchHere True svgOpen (drop k text) = None"
      using that by (rule first [rule_format])
    ultimately show False by simp
  qed
  have noclose: "\<not> occursAt False ''</svg>'' text k" if "start \<le> k" "k < start + j" for k
  proof
    assume "occursAt False ''</svg>'' text k"
    then have "startsWith False ''</svg>'' (drop k text)" by (simp add: occursAt_def)
    moreover have "drop (k - start) ?u = drop k text" using that by simp
    moreover have "k - start < j" using that by simp
    ultimately show False using jmin by metis
  qed
  have slice: "r = slice text start (start + j + 6)" using r by (simp add: slice_def)
  have "startsWith True ''<svg'' ?u" using o by (simp add: occursAt_def)
  then have "startsWith True ''<svg'' (take (j + 6) ?u)" by (rule startsWith_take) simp
  then have pre: "startsWith True ''<svg'' r" using r by simp
  have l6: "length ''</svg>'' = 6" by simp
  have t: "take 6 (drop j ?u) = ''</svg>''" using startsWith_exact [OF sw] unfolding l6 .
  have "r = take j ?u @ take 6 (drop j ?u)" using r by (simp add: take_add)
  then have r2: "r = take j ?u @ ''</svg>''" by (simp only: t)
  have "length (take j ?u) = j" using jl by simp
  then have suf: "endsWith r ''</svg>''" using r2 by (simp add: endsWith_def)
  show ?thesis
    using o c nofirst noclose slice pre suf
    by (intro exI [of _ start] exI [of _ "start + j"]) auto
qed

text \<open>
  Claim C9, as amended. \<open>extractSvgMarkup\<close> returns nothing exactly when no \<^verbatim>\<open></svg>\<close>
  stands at or after an occurrence of \<^verbatim>\<open><svg\<close> written in any letter case. Otherwise it
  returns the text from the first such \<^verbatim>\<open><svg\<close> up to and including the first \<^verbatim>\<open></svg>\<close>
  at or after it; the result starts with \<^verbatim>\<open><svg\<close> in some letter case and ends with
  \<^verbatim>\<open></svg>\<close> in lower case.
\<close>

theorem extractSvgMarkup_span:
  "(extractSvgMarkup text = None \<longleftrightarrow>
      \<not> (\<exists>i j. i \<le> j \<and> occursAt True ''<svg'' text i \<and> occursAt False ''</svg>'' text j)) \<and>
   (\<forall>r. extractSvgMarkup text = Some r \<longrightarrow>
      (\<exists>i j. i \<le> j \<and> occursAt True ''<svg'' text i \<and>
           (\<forall>k < i. \<not> occursAt True ''<svg'' text k) \<and>
           occursAt False ''</svg>'' text j \<and>
           (\<forall>k. i \<le> k \<and> k < j \<longrightarrow> \<not> occursAt False ''</svg>'' text k) \<and>
           r = slice text i (j + 6) \<and>
           startsWith True ''<svg'' r \<and> endsWith r ''</svg>''))"
  using extract_None_iff extract_Some by blast

text \<open>An upper-case open tag inside other text, and two close tags.\<close>

theorem extractSvgMarkup_span_witness:
  "extractSvgMarkup ''a<SVG x></svg>b</svg>'' = Some ''<SVG x></svg>'' \<and>
   startsWith True ''<svg'' ''<SVG x></svg>'' \<and> endsWith ''<SVG x></svg>'' ''</svg>'' \<and>
   (\<exists>i j. i \<le> j \<and> occursAt True ''<svg'' ''a<SVG x></svg>b</svg>'' i \<and>
          occursAt False ''</svg>'' ''a<SVG x></svg>b</svg>'' j)"
proof -
  have e: "extractSvgMarkup ''a<SVG x></svg>b</svg>'' = Some ''<SVG x></svg>''"
    by code_simp
  note span = extractSvgMarkup_span [of "''a<SVG x></svg>b</svg>''"]
  from span e have
    "\<exists>i j. i \<le> j \<and> occursAt True ''<svg'' ''a<SVG x></svg>b</svg>'' i \<and>
          occursAt False ''</svg>'' ''a<SVG x></svg>b</svg>'' j"
    by (metis option.distinct(1))
  moreover from span e have
    "startsWith True ''<svg'' ''<SVG x></svg>'' \<and> endsWith ''<SVG x></svg>'' ''</svg>''"
    by blast
  ultimately show ?thesis using e by blast
qed

text \<open>The open tag is found without regard to case, so a result may start with \<^verbatim>\<open><SVG\<close>.\<close>

theorem extractSvgMarkup_lower_case_counterexample:
  "\<not> (\<forall>text r. extractSvgMarkup text = Some r \<longrightarrow> startsWith False ''<svg'' r)"
proof
  assume "\<forall>text r. extractSvgMarkup text = Some r \<longrightarrow> startsWith False ''<svg'' r"
  moreover have "extractSvgMarkup ''<SVG></svg>'' = Some ''<SVG></svg>''" by code_simp
  ultimately have "startsWith False ''<svg'' ''<SVG></svg>''" by blast
  then show False by (simp add: eqChar_def)
qed

section \<open>The dash-array fix inside a page\<close>

lemma scan_Cons_nomatch:
  assumes "matchHere ic re (x # xs) = None"
  shows "scan ic re (x # xs) = pushFront x (scan ic re xs)"
proof (cases "findFirst ic re xs")
  case None
  with assms show ?thesis by (simp add: scan.simps pushFront_def)
next
  case (Some p)
  obtain i g where p: "p = (i, g)" by (cases p)
  have f: "findFirst ic re (x # xs) = Some (Suc i, g)" using assms Some p by simp
  show ?thesis
    by (subst scan.simps, subst (2) scan.simps)
       (simp add: f Some p pushFront_def Let_def del: findFirst.simps)
qed

lemma replaceAll_Cons_nomatch:
  assumes "matchHere ic re (x # xs) = None"
  shows "replaceAll ic re f (x # xs) = x # replaceAll ic re f xs"
proof -
  have "scan ic re (x # xs) = pushFront x (scan ic re xs)" using assms by (rule scan_Cons_nomatch)
  then show ?thesis
    by (cases "scan ic re xs") (auto simp add: replaceAll_def pushFront_def split: list.splits)
qed

lemma replaceAll_prefix_nomatch:
  assumes "\<forall>k < length pre. matchHere ic re (drop k (pre @ s)) = None"
  shows "replaceAll ic re f (pre @ s) = pre @ replaceAll ic re f s"
  using assms
proof (induction pre)
  case Nil
  then show ?case by simp
next
  case (Cons x pre)
  have "matchHere ic re (drop 0 ((x # pre) @ s)) = None" using Cons.prems by blast
  then have n: "matchHere ic re (x # pre @ s) = None" by simp
  have "\<forall>k < length pre. matchHere ic re (drop k (pre @ s)) = None"
  proof (intro allI impI)
    fix k assume "k < length pre"
    then have "matchHere ic re (drop (Suc k) ((x # pre) @ s)) = None" using Cons.prems by auto
    then show "matchHere ic re (drop k (pre @ s)) = None" by simp
  qed
  then have "replaceAll ic re f (pre @ s) = pre @ replaceAll ic re f s" by (rule Cons.IH)
  with n show ?case by (simp add: replaceAll_Cons_nomatch)
qed

lemma replaceAll_match_here:
  assumes "matchHere ic re s = Some g" "concat g \<noteq> []"
  shows "replaceAll ic re f s = f g @ replaceAll ic re f (drop (length (concat g)) s)"
proof -
  have "findFirst ic re s = Some (0, g)" using assms(1) by (rule findFirst_here)
  then have "replaceAll ic re f s = take 0 s @ f g @ replaceAll ic re f (drop (0 + length (concat g)) s)"
    using assms(2) by (rule replaceAll_Some)
  then show ?thesis by simp
qed

lemma eqChar_sym: "eqChar ic a b \<Longrightarrow> eqChar ic b a"
  by (auto simp add: eqChar_def split: if_splits)

lemma startsWith_chars:
  "startsWith ic p s \<Longrightarrow> c \<in> set (take (length p) s) \<Longrightarrow> \<exists>d \<in> set p. eqChar ic d c"
proof (induction ic p s rule: startsWith.induct)
  case (3 ic d t x s)
  then show ?case by (auto split: if_splits)
qed auto

lemma startsWith_appendD: "startsWith ic (p @ q) s \<Longrightarrow> startsWith ic p s"
  by (induction ic p s rule: startsWith.induct) (auto split: if_splits)

lemma startsWith_window: "startsWith ic p s \<longleftrightarrow> startsWith ic p (take (length p) s)"
  by (induction ic p s rule: startsWith.induct) auto

lemma occursAt_window:
  assumes "k + length p \<le> length a"
  shows "occursAt ic p (a @ X) k \<longleftrightarrow> occursAt ic p a k"
proof -
  have t: "take (length p) (drop k (a @ X)) = take (length p) (drop k a)"
    using assms by simp
  have "startsWith ic p (drop k (a @ X)) \<longleftrightarrow> startsWith ic p (take (length p) (drop k (a @ X)))"
    by (rule startsWith_window)
  also have "\<dots> \<longleftrightarrow> startsWith ic p (take (length p) (drop k a))"
    by (simp only: t)
  also have "\<dots> \<longleftrightarrow> startsWith ic p (drop k a)"
    by (rule startsWith_window [symmetric])
  finally have "startsWith ic p (drop k (a @ X)) \<longleftrightarrow> startsWith ic p (drop k a)" .
  then show ?thesis using assms by (simp add: occursAt_def)
qed

lemma startsWith_dropD: "startsWith ic (p @ q) s \<Longrightarrow> startsWith ic q (drop (length p) s)"
  by (induction ic p s rule: startsWith.induct) (auto split: if_splits)

lemma startsWith_exact_char:
  assumes "startsWith ic (c # q) s" "\<not> isLower c" "\<not> isUpper c"
  shows "\<exists>rest. s = c # rest"
proof (cases s)
  case Nil
  with assms show ?thesis by simp
next
  case (Cons x xs)
  with assms(1) have "eqChar ic c x" by (simp split: if_splits)
  with assms(2,3) have "x = c" by (rule eqChar_exact)
  with Cons show ?thesis by simp
qed

lemma lit_length: "length ''stroke-dasharray'' = 16"
  by simp

lemma lit_window_chars:
  assumes "startsWith True ''stroke-dasharray'' s" "c \<in> set (take 16 s)"
    "\<not> isLower c" "\<not> isUpper c"
  shows "c = CHR ''-''"
proof -
  have "c \<in> set (take (length ''stroke-dasharray'') s)" using assms(2) by (simp only: lit_length)
  with assms(1) obtain d where d: "d \<in> set ''stroke-dasharray''" and e: "eqChar True d c"
    by (blast dest: startsWith_chars)
  from e have "eqChar True c d" by (rule eqChar_sym)
  with assms(3,4) have "d = c" by (rule eqChar_exact)
  with d assms(3,4) show ?thesis by (auto simp add: isLower_def)
qed

lemma dashAttr_lit:
  assumes "matchHere True dashAttr s \<noteq> None"
  shows "startsWith True ''stroke-dasharray'' s"
proof -
  have \<open>startsWith True ''stroke-dasharray="'' s\<close>
    using assms unfolding dashAttr_def by (simp only: matchHere_Str_Some_iff)
  then have \<open>startsWith True (''stroke-dasharray'' @ ''="'') s\<close> by simp
  then show ?thesis by (rule startsWith_appendD)
qed

lemma dashAttr_equals:
  assumes "matchHere True dashAttr s \<noteq> None"
  shows "\<exists>rest. s = take 16 s @ CHR ''='' # rest"
proof -
  have \<open>startsWith True ''stroke-dasharray="'' s\<close>
    using assms unfolding dashAttr_def by (simp only: matchHere_Str_Some_iff)
  then have \<open>startsWith True (''stroke-dasharray'' @ ''="'') s\<close> by simp
  then have \<open>startsWith True ''="'' (drop (length ''stroke-dasharray'') s)\<close>
    by (rule startsWith_dropD)
  then have \<open>startsWith True (CHR ''='' # [dquote]) (drop 16 s)\<close>
    unfolding lit_length by (simp add: dquote_def)
  then obtain rest where "drop 16 s = CHR ''='' # rest"
    by (rule startsWith_exact_char [THEN exE]) (simp_all add: isLower_def isUpper_def)
  then show ?thesis by (metis append_take_drop_id)
qed

lemma dashStyle_lit:
  assumes "matchHere True dashStyle s \<noteq> None"
  shows "startsWith True ''stroke-dasharray'' s"
  using assms unfolding dashStyle_def by (simp only: matchHere_Str_Some_iff)

lemma dashStyle_colon:
  assumes "matchHere True dashStyle s \<noteq> None"
  shows "\<exists>w rest. s = take 16 s @ w @ CHR '':'' # rest \<and> (\<forall>c \<in> set w. isSpace c)"
proof -
  let ?r = "[Str '':'', Star isSpace, Plus (\<lambda>c. c \<noteq> CHR '';'' \<and> c \<noteq> dquote \<and> c \<noteq> squote)]"
  let ?u = "drop 16 s"
  have l: "length ''stroke-dasharray'' = 16" by simp
  have "matchHere True (Star isSpace # ?r) ?u \<noteq> None"
    using assms unfolding dashStyle_def matchHere_Str_Some_iff l by simp
  then obtain g where "matchHere True (Star isSpace # ?r) ?u = Some g" by auto
  then obtain n g' where n: "n \<in> set (lengths True (Star isSpace) ?u)"
    and g': "matchHere True ?r (drop n ?u) = Some g'"
    by (blast dest: matchHere_Cons_Some)
  from n have nl: "n \<le> length (takeWhile isSpace ?u)" by auto
  have "take n ?u = take n (takeWhile isSpace ?u)"
    using nl by (metis takeWhile_eq_take take_take min.absorb1)
  then have sp: "\<forall>c \<in> set (take n ?u). isSpace c"
    by (metis in_set_takeD set_takeWhileD)
  from g' have "matchHere True ?r (drop n ?u) \<noteq> None" by simp
  then have "startsWith True (CHR '':'' # []) (drop n ?u)"
    by (simp only: matchHere_Str_Some_iff)
  then obtain rest where "drop n ?u = CHR '':'' # rest"
    by (rule startsWith_exact_char [THEN exE]) (simp_all add: isLower_def isUpper_def)
  then have "?u = take n ?u @ CHR '':'' # rest" by (metis append_take_drop_id)
  then have "s = take 16 s @ take n ?u @ CHR '':'' # rest" by (metis append_take_drop_id)
  with sp show ?thesis by blast
qed

lemma split_point_clash:
  assumes "mid @ a # X = pfx @ b # rest" "b \<notin> set mid" "a \<notin> set pfx" "a \<noteq> b"
  shows False
proof -
  from assms(1) obtain us where
    "(mid = pfx @ us \<and> us @ a # X = b # rest) \<or> (mid @ us = pfx \<and> a # X = us @ b # rest)"
    by (auto simp add: append_eq_append_conv2)
  then show False
  proof
    assume h: "mid = pfx @ us \<and> us @ a # X = b # rest"
    show False
    proof (cases us)
      case Nil
      with h assms(4) show False by simp
    next
      case (Cons u us')
      with h have "b \<in> set mid" by auto
      with assms(2) show False by simp
    qed
  next
    assume h: "mid @ us = pfx \<and> a # X = us @ b # rest"
    show False
    proof (cases us)
      case Nil
      with h assms(4) show False by simp
    next
      case (Cons u us')
      with h have "a \<in> set pfx" by auto
      with assms(3) show False by simp
    qed
  qed
qed

lemma lit_first_any_tail:
  assumes "\<forall>k < length pre. \<not> occursAt True ''stroke-dasharray'' (pre @ ''stroke-dasharray'' @ X) k"
    "k < length pre"
  shows "\<not> startsWith True ''stroke-dasharray'' (drop k (pre @ ''stroke-dasharray'' @ Y))"
proof
  assume "startsWith True ''stroke-dasharray'' (drop k (pre @ ''stroke-dasharray'' @ Y))"
  then have "occursAt True ''stroke-dasharray'' ((pre @ ''stroke-dasharray'') @ Y) k"
    using assms(2) by (simp add: occursAt_def)
  moreover have kl: "k + length ''stroke-dasharray'' \<le> length (pre @ ''stroke-dasharray'')"
    using assms(2) by simp
  ultimately have "occursAt True ''stroke-dasharray'' (pre @ ''stroke-dasharray'') k"
    by (simp only: occursAt_window)
  then have "occursAt True ''stroke-dasharray'' ((pre @ ''stroke-dasharray'') @ X) k"
    using kl by (simp only: occursAt_window)
  then show False using assms by simp
qed

lemma style_not_inside_attr:
  assumes "CHR '':'' \<notin> set bdy" "j \<le> length bdy"
  shows "matchHere True dashStyle (drop j bdy @ dquote # X) = None"
proof (rule ccontr)
  let ?s = "drop j bdy @ dquote # X"
  assume m: "matchHere True dashStyle ?s \<noteq> None"
  then have "\<exists>w rest. ?s = take 16 ?s @ w @ CHR '':'' # rest \<and> (\<forall>c \<in> set w. isSpace c)"
    by (rule dashStyle_colon)
  then obtain t w rest where s: "?s = t @ w @ CHR '':'' # rest" and t: "t = take 16 ?s"
    and w: "\<forall>c \<in> set w. isSpace c"
    by blast
  have lit: "startsWith True ''stroke-dasharray'' ?s" using m by (rule dashStyle_lit)
  have "dquote \<notin> set t"
  proof
    assume "dquote \<in> set t"
    then have "dquote \<in> set (take 16 ?s)" by (simp only: t)
    with lit have "dquote = CHR ''-''"
      by (rule lit_window_chars) (simp_all add: dquote_def isLower_def isUpper_def)
    then show False by (simp add: dquote_def)
  qed
  moreover have "\<not> isSpace dquote" by (simp add: isSpace_def dquote_def)
  with w have "dquote \<notin> set w" by blast
  ultimately have q: "dquote \<notin> set (t @ w)" by simp
  have c: "CHR '':'' \<notin> set (drop j bdy)" using assms(1) by (auto dest: in_set_dropD)
  from s have "drop j bdy @ dquote # X = (t @ w) @ CHR '':'' # rest" by simp
  then show False using c q by (rule split_point_clash) (simp add: dquote_def)
qed

lemma replaceAll_dashAttr_here:
  assumes "dquote \<notin> set v"
  shows \<open>replaceAll True dashAttr (\<lambda>g. ''stroke-dasharray="'' @ fixList (g ! 1) @ ''"'')
           (''stroke-dasharray="'' @ v @ ''"'' @ post) =
         ''stroke-dasharray="'' @ fixList v @ ''"'' @
           replaceAll True dashAttr (\<lambda>g. ''stroke-dasharray="'' @ fixList (g ! 1) @ ''"'') post\<close>
proof -
  let ?f = \<open>\<lambda>g. ''stroke-dasharray="'' @ fixList (g ! 1) @ ''"''\<close>
  let ?g = \<open>[''stroke-dasharray="'', v, ''"'']\<close>
  let ?s = \<open>''stroke-dasharray="'' @ v @ ''"'' @ post\<close>
  have m: "matchHere True dashAttr ?s = Some ?g" using assms by (rule matchHere_dashAttr)
  have d: "drop (length (concat ?g)) ?s = post" by simp
  have "replaceAll True dashAttr ?f ?s = ?f ?g @ replaceAll True dashAttr ?f (drop (length (concat ?g)) ?s)"
    using m by (rule replaceAll_match_here) simp
  then show ?thesis unfolding d by simp
qed

lemma drop_into_middle:
  "\<not> k < length pre \<Longrightarrow> k - length pre \<le> length bd \<Longrightarrow>
     drop k ((pre @ bd @ [q]) @ X) = drop (k - length pre) bd @ q # X"
  by simp

lemma fixDashArrays_attr_in_page:
  assumes first: \<open>\<forall>k < length pre.
      \<not> occursAt True ''stroke-dasharray'' (pre @ ''stroke-dasharray="'' @ v @ ''"'' @ post) k\<close>
    and v: "dquote \<notin> set v" and fl: "CHR '':'' \<notin> set (fixList v)"
  shows \<open>fixDashArrays (pre @ ''stroke-dasharray="'' @ v @ ''"'' @ post) =
           pre @ ''stroke-dasharray="'' @ fixList v @ ''"'' @ fixDashArrays post\<close>
proof -
  let ?f1 = \<open>\<lambda>g. ''stroke-dasharray="'' @ fixList (g ! 1) @ ''"''\<close>
  let ?f2 = \<open>\<lambda>g. ''stroke-dasharray:'' @ fixList (g ! 4)\<close>
  let ?page = \<open>pre @ ''stroke-dasharray="'' @ v @ ''"'' @ post\<close>
  let ?post1 = "replaceAll True dashAttr ?f1 post"
  let ?bd = \<open>''stroke-dasharray="'' @ fixList v\<close>
  have first': \<open>\<forall>k < length pre.
      \<not> occursAt True ''stroke-dasharray'' (pre @ ''stroke-dasharray'' @ (''="'' @ v @ ''"'' @ post)) k\<close>
    using first by simp
  have lit: "\<not> startsWith True ''stroke-dasharray'' (drop k (pre @ ''stroke-dasharray'' @ Y))"
    if "k < length pre" for k Y
    using first' that by (rule lit_first_any_tail)
  have no1: "\<forall>k < length pre. matchHere True dashAttr (drop k ?page) = None"
  proof (intro allI impI, rule ccontr)
    fix k assume k: "k < length pre" and "matchHere True dashAttr (drop k ?page) \<noteq> None"
    then have "startsWith True ''stroke-dasharray'' (drop k ?page)" by (intro dashAttr_lit)
    then have \<open>startsWith True ''stroke-dasharray''
        (drop k (pre @ ''stroke-dasharray'' @ (''="'' @ v @ ''"'' @ post)))\<close> by simp
    with lit [OF k] show False by blast
  qed
  have \<open>replaceAll True dashAttr ?f1 ?page =
          pre @ replaceAll True dashAttr ?f1 (''stroke-dasharray="'' @ v @ ''"'' @ post)\<close>
    using no1 by (rule replaceAll_prefix_nomatch)
  then have p1: \<open>replaceAll True dashAttr ?f1 ?page =
      (pre @ ?bd @ [dquote]) @ ?post1\<close>
    using replaceAll_dashAttr_here [OF v, of post] by (simp add: dquote_def)
  have no2: "\<forall>k < length (pre @ ?bd @ [dquote]).
      matchHere True dashStyle (drop k ((pre @ ?bd @ [dquote]) @ ?post1)) = None"
  proof (intro allI impI)
    fix k assume k: "k < length (pre @ ?bd @ [dquote])"
    show "matchHere True dashStyle (drop k ((pre @ ?bd @ [dquote]) @ ?post1)) = None"
    proof (cases "k < length pre")
      case True
      show ?thesis
      proof (rule ccontr)
        assume "matchHere True dashStyle (drop k ((pre @ ?bd @ [dquote]) @ ?post1)) \<noteq> None"
        then have "startsWith True ''stroke-dasharray'' (drop k ((pre @ ?bd @ [dquote]) @ ?post1))"
          by (intro dashStyle_lit)
        then have \<open>startsWith True ''stroke-dasharray''
            (drop k (pre @ ''stroke-dasharray'' @ (''="'' @ fixList v @ [dquote] @ ?post1)))\<close> by simp
        with lit [OF True] show False by blast
      qed
    next
      case False
      let ?j = "k - length pre"
      have j: "?j \<le> length ?bd" using k False by simp
      have c: "CHR '':'' \<notin> set ?bd" using fl by simp
      have "drop k ((pre @ ?bd @ [dquote]) @ ?post1) = drop ?j ?bd @ dquote # ?post1"
        using False j by (rule drop_into_middle)
      then show ?thesis using style_not_inside_attr [OF c j] by (simp only:)
    qed
  qed
  have "replaceAll True dashStyle ?f2 ((pre @ ?bd @ [dquote]) @ ?post1) =
          (pre @ ?bd @ [dquote]) @ replaceAll True dashStyle ?f2 ?post1"
    using no2 by (rule replaceAll_prefix_nomatch)
  then show ?thesis
    unfolding fixDashArrays_def Let_def p1 by (simp add: dquote_def)
qed

lemma set_splitFrom:
  "set (concat (splitFrom ic re cur s)) \<subseteq> set cur \<union> set s"
proof (induction ic re cur s rule: splitFrom.induct)
  case (1 ic re cur)
  then show ?case by simp
next
  case (2 ic re cur x xs)
  show ?case
  proof (cases "matchHere ic re (x # xs)")
    case None
    with 2 show ?thesis by auto
  next
    case (Some g)
    show ?thesis
    proof (cases "concat g = []")
      case True
      with 2 Some show ?thesis by (cases "cur = []") auto
    next
      case False
      have "set (concat (splitFrom ic re [] (drop (length (concat g)) (x # xs)))) \<subseteq>
              set [] \<union> set (drop (length (concat g)) (x # xs))"
        using 2(4) Some False by blast
      moreover have "set (drop (length (concat g)) (x # xs)) \<subseteq> set (x # xs)"
        by (rule set_drop_subset)
      ultimately show ?thesis using Some False by auto
    qed
  qed
qed

lemma set_split: "set (concat (split ic re s)) \<subseteq> set s"
  using set_splitFrom [of ic re "[]" s] by (auto simp add: split_def)

lemma fixList_no_colon:
  assumes "CHR '':'' \<notin> set v"
  shows "CHR '':'' \<notin> set (fixList v)"
proof
  assume "CHR '':'' \<in> set (fixList v)"
  then have "CHR '':'' \<in> set '' '' \<union> \<Union> (set ` set (map fixEntry (split False [Plus isSep] v)))"
    unfolding fixList_def using set_join by blast
  then obtain e where e: "e \<in> set (split False [Plus isSep] v)" and c: "CHR '':'' \<in> set (fixEntry e)"
    by auto
  from c have "CHR '':'' \<in> set e \<union> set ''0.001''" using set_fixEntry by blast
  then have "CHR '':'' \<in> set e" by simp
  with e have "CHR '':'' \<in> set (concat (split False [Plus isSep] v))" by auto
  with assms show False using set_split by blast
qed

lemma eqChar_s: "eqChar True CHR ''s'' x \<Longrightarrow> x = CHR ''s'' \<or> x = CHR ''S''"
  by (auto simp add: eqChar_def canon_def split: if_splits)

lemma no_lit_in_prefix:
  assumes "\<forall>c \<in> set pre. c \<noteq> CHR ''s'' \<and> c \<noteq> CHR ''S''"
  shows "\<forall>k < length pre. \<not> occursAt True ''stroke-dasharray'' (pre @ X) k"
proof (intro allI impI notI)
  fix k assume k: "k < length pre" and o: "occursAt True ''stroke-dasharray'' (pre @ X) k"
  have "drop k (pre @ X) = pre ! k # drop (Suc k) (pre @ X)"
    using k by (metis Cons_nth_drop_Suc length_append nth_append trans_less_add1)
  with o have "eqChar True CHR ''s'' (pre ! k)"
    by (simp add: occursAt_def split: if_splits)
  then have "pre ! k = CHR ''s'' \<or> pre ! k = CHR ''S''" by (rule eqChar_s)
  moreover have "pre ! k \<in> set pre" using k by simp
  ultimately show False using assms by blast
qed



text \<open>
  Claim C3. \<open>fixDashArrays\<close> is to rewrite every zero entry of a dash pattern, in the
  attribute and in the style property, whatever separates the entries. The code does not:
  a zero in an attribute written with single quotes stays, a zero before the closing brace
  of a style rule stays (the entry read is \<^verbatim>\<open>0}\<close>), and a zero in an attribute written with
  blanks around \<^verbatim>\<open>=\<close> stays.
\<close>

theorem fixDashArrays_missed_zero:
  \<open>fixDashArrays (''<path stroke-dasharray='' @ [squote] @ ''0,5'' @ [squote] @ ''/>'') =
     ''<path stroke-dasharray='' @ [squote] @ ''0,5'' @ [squote] @ ''/>'' \<and>
   fixDashArrays ''<style>.a{stroke-dasharray:5,0}</style>'' =
     ''<style>.a{stroke-dasharray:5 0}</style>'' \<and>
   fixDashArrays ''<path stroke-dasharray = "0,5"/>'' = ''<path stroke-dasharray = "0,5"/>''\<close>
  by code_simp

section \<open>Namespace normalization\<close>

text \<open>The opening of an \<^verbatim>\<open>svg\<close> tag at an index: \<^verbatim>\<open><svg\<close> in any letter case, then a
  white-space character or \<^verbatim>\<open>>\<close>.\<close>

definition rootTagAt :: "string \<Rightarrow> nat \<Rightarrow> bool" where
  "rootTagAt t k =
     (occursAt True ''<svg'' t k \<and>
      (case drop (k + 4) t of [] \<Rightarrow> False | c # rest \<Rightarrow> isSpace c \<or> c = CHR ''>''))"

lemma matchHere_One:
  "matchHere ic (One P # r) (x # s) = (if P x then map_option ((#) [x]) (matchHere ic r s) else None)"
  by (cases "matchHere ic r s") simp_all

lemma matchHere_One_Nil: "matchHere ic (One P # r) [] = None"
  by simp

lemma findFirst_exists:
  "matchHere ic re (drop i s) \<noteq> None \<Longrightarrow> i \<le> length s \<Longrightarrow> findFirst ic re s \<noteq> None"
  by (auto simp add: findFirst_None_iff)

lemma matchHere_svgTagRe:
  "matchHere True svgTagRe u =
     (if startsWith True ''<svg'' u then
        (case drop 4 u of
           [] \<Rightarrow> None
         | c # rest \<Rightarrow> if isSpace c \<or> c = CHR ''>'' then Some [take 4 u, [c]] else None)
      else None)"
proof -
  have l: "length ''<svg'' = 4" by simp
  show ?thesis
    unfolding svgTagRe_def matchHere_Str_iff l
    by (cases "drop 4 u") (simp_all only: matchHere_One matchHere_One_Nil, simp_all)
qed

lemma rootTagAt_iff:
  "k \<le> length t \<Longrightarrow> rootTagAt t k \<longleftrightarrow> matchHere True svgTagRe (drop k t) \<noteq> None"
  by (cases "drop (k + 4) t")
     (auto simp add: rootTagAt_def occursAt_def matchHere_svgTagRe add.commute split: list.splits)

lemma matchHere_Star_none:
  assumes "rest \<noteq> []" "\<not> P (hd rest)" "matchHere ic r rest = Some g"
  shows "matchHere ic (Star P # r) rest = Some ([] # g)"
  using matchHere_Star_all [of "[]" P rest ic r g] assms by simp

lemma matchHere_spaced_assignment:
  assumes "P x" "b \<noteq> []" "\<not> S (hd b)" "c \<noteq> []" "\<not> S (hd c)"
  shows "matchHere ic [One P, Str a, Star S, Str b, Star S, Str c] (x # a @ b @ c @ rest) =
           Some [[x], a, [], b, [], c]"
proof -
  have 1: "matchHere ic [Str c] (c @ rest) = Some [c]"
    by (simp add: matchHere_Str del: matchHere.simps(2))
  have 2: "matchHere ic [Star S, Str c] (c @ rest) = Some [[], c]"
    using assms(4,5) 1 by (intro matchHere_Star_none) simp_all
  have 3: "matchHere ic [Str b, Star S, Str c] (b @ c @ rest) = Some [b, [], c]"
    using 2 by (simp add: matchHere_Str del: matchHere.simps(2))
  have 4: "matchHere ic [Star S, Str b, Star S, Str c] (b @ c @ rest) = Some [[], b, [], c]"
    using assms(2,3) 3 by (intro matchHere_Star_none) simp_all
  have 5: "matchHere ic [Str a, Star S, Str b, Star S, Str c] (a @ b @ c @ rest) = Some [a, [], b, [], c]"
    using 4 by (simp add: matchHere_Str del: matchHere.simps(2))
  show ?thesis
    using assms(1) 5 by (simp add: matchHere_One del: matchHere.simps(2))
qed

lemma matchHere_xmlns:
  \<open>matchHere True xmlnsRe ('' xmlns="http://www.w3.org/2000/svg"'' @ rest) \<noteq> None\<close>
proof -
  have \<open>matchHere True [One isSpace, Str ''xmlns'', Star isSpace, Str ''='', Star isSpace,
            Str ''"http://www.w3.org/2000/svg"'']
          (CHR '' '' # ''xmlns'' @ ''='' @ ''"http://www.w3.org/2000/svg"'' @ rest) =
        Some [[CHR '' ''], ''xmlns'', [], ''='', [], ''"http://www.w3.org/2000/svg"'']\<close>
    by (rule matchHere_spaced_assignment) (simp_all add: isSpace_def)
  then have \<open>matchHere True xmlnsRe (CHR '' '' # ''xmlns'' @ ''='' @ ''"http://www.w3.org/2000/svg"'' @ rest)
        \<noteq> None\<close>
    unfolding xmlnsRe_def by (simp only: option.distinct not_False_eq_True)
  moreover have \<open>'' xmlns="http://www.w3.org/2000/svg"'' @ rest =
      CHR '' '' # ''xmlns'' @ ''='' @ ''"http://www.w3.org/2000/svg"'' @ rest\<close> by simp
  ultimately show ?thesis by (simp only: not_False_eq_True)
qed

lemma test_after_inject:
  \<open>test True xmlnsRe (pre @ ''<svg xmlns="http://www.w3.org/2000/svg"'' @ rest)\<close>
proof -
  let ?s = \<open>pre @ ''<svg xmlns="http://www.w3.org/2000/svg"'' @ rest\<close>
  have \<open>drop (length pre + 4) ?s = '' xmlns="http://www.w3.org/2000/svg"'' @ rest\<close> by simp
  then have "matchHere True xmlnsRe (drop (length pre + 4) ?s) \<noteq> None"
    using matchHere_xmlns [of rest] by (simp del: matchHere.simps)
  moreover have "length pre + 4 \<le> length ?s" by simp
  ultimately have "findFirst True xmlnsRe ?s \<noteq> None" by (rule findFirst_exists)
  then show ?thesis by (simp add: test_def)
qed

lemma ensureNamespace_declared: "test True xmlnsRe t \<Longrightarrow> ensureNamespace t = t"
  by (simp add: ensureNamespace_def)

lemma ensureNamespace_no_tag:
  assumes "\<forall>k \<le> length t. \<not> rootTagAt t k"
  shows "ensureNamespace t = t"
proof -
  have "findFirst True svgTagRe t = None"
    using assms by (simp add: findFirst_None_iff rootTagAt_iff)
  then show ?thesis by (simp add: ensureNamespace_def replaceFirst_def)
qed

lemma findFirst_at:
  assumes "matchHere ic re s = Some g" "\<forall>k < length pre. matchHere ic re (drop k (pre @ s)) = None"
  shows "findFirst ic re (pre @ s) = Some (length pre, g)"
  using assms
proof (induction pre)
  case Nil
  then show ?case by (simp add: findFirst_here)
next
  case (Cons x pre)
  have "matchHere ic re (drop 0 ((x # pre) @ s)) = None" using Cons.prems(2) by blast
  then have n: "matchHere ic re (x # pre @ s) = None" by simp
  have "\<forall>k < length pre. matchHere ic re (drop k (pre @ s)) = None"
  proof (intro allI impI)
    fix k assume "k < length pre"
    then have "matchHere ic re (drop (Suc k) ((x # pre) @ s)) = None" using Cons.prems(2) by auto
    then show "matchHere ic re (drop k (pre @ s)) = None" by simp
  qed
  with Cons.IH Cons.prems(1) have "findFirst ic re (pre @ s) = Some (length pre, g)" by blast
  with n show ?case by simp
qed

lemma startsWith_append: "startsWith ic p s \<Longrightarrow> startsWith ic p (s @ rest)"
  by (induction ic p s rule: startsWith.induct) (auto split: if_splits)

lemma ensureNamespace_inject:
  assumes "\<not> test True xmlnsRe t" "t = pre @ tag @ c # post" "length tag = 4"
    "startsWith True ''<svg'' tag" "isSpace c \<or> c = CHR ''>''" "\<forall>k < length pre. \<not> rootTagAt t k"
  shows \<open>ensureNamespace t = pre @ ''<svg xmlns="http://www.w3.org/2000/svg"'' @ c # post\<close>
proof -
  let ?u = "tag @ c # post"
  have sw: "startsWith True ''<svg'' ?u"
    using assms(4) by (rule startsWith_append)
  have m: "matchHere True svgTagRe ?u = Some [tag, [c]]"
    using sw assms(3,5) by (simp add: matchHere_svgTagRe)
  have "\<forall>k < length pre. matchHere True svgTagRe (drop k (pre @ ?u)) = None"
  proof (intro allI impI)
    fix k assume k: "k < length pre"
    then have "\<not> rootTagAt t k" using assms(6) by blast
    moreover have "k \<le> length t" using k assms(2) by simp
    ultimately show "matchHere True svgTagRe (drop k (pre @ ?u)) = None"
      using assms(2) by (simp add: rootTagAt_iff)
  qed
  with m have "findFirst True svgTagRe (pre @ ?u) = Some (length pre, [tag, [c]])"
    by (rule findFirst_at)
  then show ?thesis
    using assms(1,2,3) by (simp add: ensureNamespace_def replaceFirst_def)
qed

text \<open>A namespace declaration at an index, read from left to right: a white-space
  character, \<^verbatim>\<open>xmlns\<close>, any white space, \<^verbatim>\<open>=\<close>, any white space, the quoted namespace; letter
  case disregarded.\<close>

definition declaredAt :: "string \<Rightarrow> nat \<Rightarrow> bool" where
  \<open>declaredAt t k =
     (case drop k t of
        [] \<Rightarrow> False
      | w # u \<Rightarrow>
          isSpace w \<and> startsWith True ''xmlns'' u \<and>
          (let v = dropWhile isSpace (drop 5 u)
           in startsWith True ''='' v \<and>
              startsWith True ''"http://www.w3.org/2000/svg"'' (dropWhile isSpace (drop 1 v))))\<close>

lemma matchHere_Cons_accepts:
  "matchHere ic (a # r) s \<noteq> None \<longleftrightarrow>
     (\<exists>n \<in> set (lengths ic a s). matchHere ic r (drop n s) \<noteq> None)"
proof -
  have "matchHere ic (a # r) s \<noteq> None \<longleftrightarrow>
      (\<exists>n \<in> set (lengths ic a s). map_option ((#) (take n s)) (matchHere ic r (drop n s)) \<noteq> None)"
    by (simp only: matchHere.simps firstSome_not_None)
  then show ?thesis by simp
qed

lemma drop_takeWhile_length: "drop (length (takeWhile P s)) s = dropWhile P s"
  by (induction s) auto

lemma startsWith_hd:
  "startsWith ic (c # q) (x # s) \<Longrightarrow> eqChar ic c x"
  by (simp split: if_splits)

lemma matchHere_Star_skip:
  assumes "\<forall>x. P x \<longrightarrow> \<not> eqChar ic c x"
  shows "matchHere ic (Star P # Str (c # q) # r) s \<noteq> None \<longleftrightarrow>
           matchHere ic (Str (c # q) # r) (dropWhile P s) \<noteq> None"
proof
  assume "matchHere ic (Star P # Str (c # q) # r) s \<noteq> None"
  then obtain n where n: "n \<in> set (lengths ic (Star P) s)"
    and m: "matchHere ic (Str (c # q) # r) (drop n s) \<noteq> None"
    unfolding matchHere_Cons_accepts [of ic "Star P"] by blast
  from n have le: "n \<le> length (takeWhile P s)" by auto
  from m have sw: "startsWith ic (c # q) (drop n s)"
    by (simp only: matchHere_Str_Some_iff)
  have "n = length (takeWhile P s)"
  proof (rule ccontr)
    assume "n \<noteq> length (takeWhile P s)"
    with le have lt: "n < length (takeWhile P s)" by simp
    then have "takeWhile P s ! n \<in> set (takeWhile P s)" by (rule nth_mem)
    then have "P (takeWhile P s ! n)" by (rule set_takeWhileD [THEN conjunct2])
    with lt have P: "P (s ! n)" by (simp add: takeWhile_nth)
    have "length (takeWhile P s) \<le> length s" by (rule length_takeWhile_le)
    with lt have "n < length s" by simp
    then have "drop n s = s ! n # drop (Suc n) s" by (simp add: Cons_nth_drop_Suc)
    with sw have "eqChar ic c (s ! n)" by (simp split: if_splits)
    with P assms show False by blast
  qed
  with m have "matchHere ic (Str (c # q) # r) (drop (length (takeWhile P s)) s) \<noteq> None"
    by blast
  then show "matchHere ic (Str (c # q) # r) (dropWhile P s) \<noteq> None"
    unfolding drop_takeWhile_length .
next
  assume "matchHere ic (Str (c # q) # r) (dropWhile P s) \<noteq> None"
  then have "matchHere ic (Str (c # q) # r) (drop (length (takeWhile P s)) s) \<noteq> None"
    unfolding drop_takeWhile_length .
  moreover have "length (takeWhile P s) \<in> set (lengths ic (Star P) s)" by simp
  ultimately show "matchHere ic (Star P # Str (c # q) # r) s \<noteq> None"
    unfolding matchHere_Cons_accepts [of ic "Star P"] by blast
qed

lemma accepts_spaced_assignment:
  assumes "\<forall>x. S x \<longrightarrow> \<not> eqChar ic b x" "\<forall>x. S x \<longrightarrow> \<not> eqChar ic c x"
  shows "matchHere ic [One P, Str a, Star S, Str (b # bs), Star S, Str (c # cs)] s \<noteq> None \<longleftrightarrow>
     (case s of
        [] \<Rightarrow> False
      | w # u \<Rightarrow>
          P w \<and> startsWith ic a u \<and>
          (let v = dropWhile S (drop (length a) u)
           in startsWith ic (b # bs) v \<and>
              startsWith ic (c # cs) (dropWhile S (drop (length (b # bs)) v))))"
proof (cases s)
  case Nil
  then show ?thesis by (simp only: matchHere_One_Nil list.case) simp
next
  case (Cons w u)
  define v where "v = dropWhile S (drop (length a) u)"
  have 1: "matchHere ic [Str (c # cs)] z \<noteq> None \<longleftrightarrow> startsWith ic (c # cs) z" for z
    by (simp only: matchHere_Str_Some_iff) (simp del: startsWith.simps)
  have 2: "matchHere ic [Star S, Str (c # cs)] z \<noteq> None \<longleftrightarrow>
             startsWith ic (c # cs) (dropWhile S z)" for z
    by (simp only: matchHere_Star_skip [OF assms(2)] 1)
  have 3: "matchHere ic [Str (b # bs), Star S, Str (c # cs)] z \<noteq> None \<longleftrightarrow>
             startsWith ic (b # bs) z \<and> startsWith ic (c # cs) (dropWhile S (drop (length (b # bs)) z))" for z
    by (simp only: matchHere_Str_Some_iff 2)
  have 4: "matchHere ic [Star S, Str (b # bs), Star S, Str (c # cs)] z \<noteq> None \<longleftrightarrow>
             startsWith ic (b # bs) (dropWhile S z) \<and>
             startsWith ic (c # cs) (dropWhile S (drop (length (b # bs)) (dropWhile S z)))" for z
    by (simp only: matchHere_Star_skip [OF assms(1)] 3)
  have 5: "matchHere ic [Str a, Star S, Str (b # bs), Star S, Str (c # cs)] u \<noteq> None \<longleftrightarrow>
             startsWith ic a u \<and> startsWith ic (b # bs) v \<and>
             startsWith ic (c # cs) (dropWhile S (drop (length (b # bs)) v))"
    unfolding v_def by (simp only: matchHere_Str_Some_iff 4)
  have 6: "matchHere ic [One P, Str a, Star S, Str (b # bs), Star S, Str (c # cs)] (w # u) \<noteq> None \<longleftrightarrow>
             P w \<and> matchHere ic [Str a, Star S, Str (b # bs), Star S, Str (c # cs)] u \<noteq> None"
    by (simp only: matchHere_One) (simp del: matchHere.simps)
  show ?thesis
    unfolding Cons 6 5 v_def by (simp only: list.case Let_def)
qed

lemma space_not_equals: "isSpace x \<Longrightarrow> \<not> eqChar True CHR ''='' x"
proof
  assume "isSpace x" "eqChar True CHR ''='' x"
  from this(2) have "x = CHR ''=''"
    by (rule eqChar_exact [rotated 2]) (simp_all add: isLower_def isUpper_def)
  with \<open>isSpace x\<close> show False by (simp add: isSpace_def)
qed

lemma space_not_dquote: "isSpace x \<Longrightarrow> \<not> eqChar True CHR 0x22 x"
proof
  assume "isSpace x" "eqChar True CHR 0x22 x"
  from this(2) have "x = CHR 0x22"
    by (rule eqChar_exact [rotated 2]) (simp_all add: isLower_def isUpper_def)
  with \<open>isSpace x\<close> show False by (simp add: isSpace_def)
qed

lemma matchHere_xmlnsRe_iff:
  \<open>matchHere True xmlnsRe s \<noteq> None \<longleftrightarrow>
     (case s of
        [] \<Rightarrow> False
      | w # u \<Rightarrow>
          isSpace w \<and> startsWith True ''xmlns'' u \<and>
          (let v = dropWhile isSpace (drop 5 u)
           in startsWith True ''='' v \<and>
              startsWith True ''"http://www.w3.org/2000/svg"'' (dropWhile isSpace (drop 1 v))))\<close>
proof -
  have l: "length ''xmlns'' = 5" "length ''='' = 1" by simp_all
  have a: "\<forall>x. isSpace x \<longrightarrow> \<not> eqChar True CHR ''='' x" by (simp add: space_not_equals)
  have b: "\<forall>x. isSpace x \<longrightarrow> \<not> eqChar True CHR 0x22 x" by (simp add: space_not_dquote)
  show ?thesis
    unfolding xmlnsRe_def accepts_spaced_assignment [OF a b] l ..
qed

lemma test_iff:
  "test ic re t \<longleftrightarrow> (\<exists>k \<le> length t. matchHere ic re (drop k t) \<noteq> None)"
  unfolding test_def findFirst_None_iff by (simp del: matchHere.simps)

lemma test_xmlnsRe_iff:
  "test True xmlnsRe t \<longleftrightarrow> (\<exists>k \<le> length t. declaredAt t k)"
  unfolding test_iff matchHere_xmlnsRe_iff declaredAt_def ..

lemma declaredAt_injected:
  \<open>declaredAt (pre @ ''<svg xmlns="http://www.w3.org/2000/svg"'' @ rest) (length pre + 4)\<close>
proof -
  have d: \<open>drop (length pre + 4) (pre @ ''<svg xmlns="http://www.w3.org/2000/svg"'' @ rest) =
      CHR '' '' # ''xmlns'' @ ''='' @ ''"http://www.w3.org/2000/svg"'' @ rest\<close> by simp
  have g: "case w # a @ b @ c @ r of [] \<Rightarrow> False
      | w # u \<Rightarrow> isSpace w \<and> startsWith True a u \<and>
          (let v = dropWhile isSpace (drop (length a) u)
           in startsWith True b v \<and> startsWith True c (dropWhile isSpace (drop (length b) v)))"
    if "isSpace w" "b \<noteq> []" "\<not> isSpace (hd b)" "c \<noteq> []" "\<not> isSpace (hd c)" for w a b c r
  proof -
    have 1: "dropWhile isSpace (b @ c @ r) = b @ c @ r" using that(2,3) by (cases b) simp_all
    have 2: "dropWhile isSpace (c @ r) = c @ r" using that(4,5) by (cases c) simp_all
    show ?thesis using that(1) by (simp add: 1 2 startsWith_self)
  qed
  have l: "length ''xmlns'' = 5" "length ''='' = 1" by simp_all
  show ?thesis
    unfolding declaredAt_def d
    using g [of \<open>CHR '' ''\<close> \<open>''=''\<close> \<open>''"http://www.w3.org/2000/svg"''\<close> \<open>''xmlns''\<close> rest]
    unfolding l by (simp add: isSpace_def del: startsWith.simps)
qed

lemma no_root_before_first:
  assumes "findFirst True svgTagRe t = Some (i, g)"
  shows "\<forall>k < i. \<not> rootTagAt t k"
proof (intro allI impI)
  fix k assume k: "k < i"
  from findFirst_Some [OF assms] have i: "i \<le> length t"
    and n: "\<forall>k < i. matchHere True svgTagRe (drop k t) = None" by blast+
  from n k have "matchHere True svgTagRe (drop k t) = None" by blast
  moreover from k i have "k \<le> length t" by simp
  ultimately show "\<not> rootTagAt t k" by (simp add: rootTagAt_iff)
qed

lemma no_root_tag:
  "findFirst True svgTagRe t = None \<Longrightarrow> \<forall>k \<le> length t. \<not> rootTagAt t k"
  by (simp add: findFirst_None_iff rootTagAt_iff)




section \<open>Sanitizing twice\<close>

lemma startsWith_appendI:
  "startsWith ic p s \<Longrightarrow> startsWith ic q (drop (length p) s) \<Longrightarrow> startsWith ic (p @ q) s"
  by (induction ic p s rule: startsWith.induct) (auto split: if_splits)

lemma findFirst_Str_absent:
  assumes "\<forall>k. \<not> occursAt ic p s k"
  shows "findFirst ic (Str p # r) s = None"
  unfolding findFirst_None_iff
proof (intro allI impI)
  fix i assume "i \<le> length s"
  with assms have "\<not> startsWith ic p (drop i s)" by (simp add: occursAt_def)
  then show "matchHere ic (Str p # r) (drop i s) = None"
    by (simp only: matchHere_Str_iff if_False)
qed

lemma matchHere_Str_Alt:
  assumes "matchHere ic (Str p # Alt ts # r) u \<noteq> None"
  shows "\<exists>t \<in> set ts. startsWith ic (p @ t) u"
proof -
  from assms have pm: "startsWith ic p u \<and> matchHere ic (Alt ts # r) (drop (length p) u) \<noteq> None"
    unfolding matchHere_Str_Some_iff .
  then have p: "startsWith ic p u"
    and m: "matchHere ic (Alt ts # r) (drop (length p) u) \<noteq> None"
    by blast+
  from m obtain n where "n \<in> set (lengths ic (Alt ts) (drop (length p) u))"
    unfolding matchHere_Cons_accepts [of ic "Alt ts"] by blast
  then obtain t where t: "t \<in> set ts" "startsWith ic t (drop (length p) u)" by auto
  from p t(2) have "startsWith ic (p @ t) u" by (rule startsWith_appendI)
  with t(1) show ?thesis by blast
qed

lemma findFirst_Str_Alt_absent:
  assumes "\<forall>t \<in> set ts. \<forall>k. \<not> occursAt ic (p @ t) s k"
  shows "findFirst ic (Str p # Alt ts # r) s = None"
  unfolding findFirst_None_iff
proof (intro allI impI)
  fix i assume i: "i \<le> length s"
  show "matchHere ic (Str p # Alt ts # r) (drop i s) = None"
  proof (rule ccontr)
    assume "matchHere ic (Str p # Alt ts # r) (drop i s) \<noteq> None"
    then obtain t where "t \<in> set ts" "startsWith ic (p @ t) (drop i s)"
      using matchHere_Str_Alt by blast
    with i assms show False by (auto simp add: occursAt_def)
  qed
qed

lemma strips_clean:
  assumes "\<forall>k. \<not> occursAt False ''<!--'' y k"
    "\<forall>k. \<not> occursAt True ''<!DOCTYPE'' y k"
    "\<forall>tag \<in> set UNWANTED_TAGS. \<forall>k. \<not> occursAt True (''<'' @ tag) y k"
  shows "stripUnwanted (stripDoctype (stripComments y)) = y"
proof -
  have c: "stripComments y = y"
    unfolding stripComments_def commentRe_def
    by (rule replaceAll_None) (rule findFirst_Str_absent [OF assms(1)])
  have d: "stripDoctype y = y"
    unfolding stripDoctype_def doctypeRe_def
    by (rule replaceAll_None) (rule findFirst_Str_absent [OF assms(2)])
  have b: "replaceAll True unwantedBlock (\<lambda>g. []) y = y"
    unfolding unwantedBlock_def
    by (rule replaceAll_None) (rule findFirst_Str_Alt_absent [OF assms(3)])
  have s: "replaceAll True unwantedSingle (\<lambda>g. []) y = y"
    unfolding unwantedSingle_def
    by (rule replaceAll_None) (rule findFirst_Str_Alt_absent [OF assms(3)])
  show ?thesis
    unfolding c d stripUnwanted_def b s ..
qed

lemma ensureNamespace_idem: "ensureNamespace (ensureNamespace s) = ensureNamespace s"
proof (cases "test True xmlnsRe s")
  case True
  then show ?thesis by (simp add: ensureNamespace_def)
next
  case False
  show ?thesis
  proof (cases "findFirst True svgTagRe s")
    case None
    with False have "ensureNamespace s = s" by (simp add: ensureNamespace_def replaceFirst_def)
    then show ?thesis by simp
  next
    case (Some m)
    obtain i g where m: "m = (i, g)" by (cases m)
    define rest where "rest = g ! 1 @ drop (i + length (concat g)) s"
    have e: \<open>ensureNamespace s = take i s @ ''<svg xmlns="http://www.w3.org/2000/svg"'' @ rest\<close>
      using False Some m by (simp add: ensureNamespace_def replaceFirst_def rest_def)
    have "test True xmlnsRe (ensureNamespace s)"
      unfolding e by (rule test_after_inject)
    then show ?thesis by (rule ensureNamespace_declared)
  qed
qed

text \<open>
  Claim C2. The namespace step is idempotent on every text. The whole transform, the
  dash-array fix followed by \<open>sanitizeSvg\<close>, applied to its own result returns that result
  whenever the result holds no \<^verbatim>\<open><!--\<close>, no \<^verbatim>\<open><!DOCTYPE\<close> and no \<^verbatim>\<open><\<close> followed by the name
  of an unwanted tag (in any letter case), and the dash-array fix leaves it as it is.
\<close>

theorem sanitize_twice:
  \<open>ensureNamespace (ensureNamespace s) = ensureNamespace s \<and>
   ((\<forall>k. \<not> occursAt False ''<!--'' (sanitize x) k) \<and>
    (\<forall>k. \<not> occursAt True ''<!DOCTYPE'' (sanitize x) k) \<and>
    (\<forall>tag \<in> set UNWANTED_TAGS. \<forall>k. \<not> occursAt True (''<'' @ tag) (sanitize x) k) \<and>
    fixDashArrays (sanitize x) = sanitize x \<longrightarrow>
    sanitize (sanitize x) = sanitize x)\<close>
proof (intro conjI impI)
  show "ensureNamespace (ensureNamespace s) = ensureNamespace s" by (rule ensureNamespace_idem)
next
  define y where "y = sanitize x"
  assume \<open>(\<forall>k. \<not> occursAt False ''<!--'' (sanitize x) k) \<and>
    (\<forall>k. \<not> occursAt True ''<!DOCTYPE'' (sanitize x) k) \<and>
    (\<forall>tag \<in> set UNWANTED_TAGS. \<forall>k. \<not> occursAt True (''<'' @ tag) (sanitize x) k) \<and>
    fixDashArrays (sanitize x) = sanitize x\<close>
  then have a: "\<forall>k. \<not> occursAt False ''<!--'' y k" "\<forall>k. \<not> occursAt True ''<!DOCTYPE'' y k"
    "\<forall>tag \<in> set UNWANTED_TAGS. \<forall>k. \<not> occursAt True (''<'' @ tag) y k" "fixDashArrays y = y"
    unfolding y_def by blast+
  have "stripUnwanted (stripDoctype (stripComments y)) = y"
    using a(1,2,3) by (rule strips_clean)
  then have "sanitize y = ensureNamespace y"
    by (simp add: sanitize_def sanitizeSvg_def a(4))
  also have "y = ensureNamespace (stripUnwanted (stripDoctype (stripComments (fixDashArrays x))))"
    by (simp add: y_def sanitize_def sanitizeSvg_def)
  then have "ensureNamespace y = y" by (simp only: ensureNamespace_idem)
  finally show "sanitize (sanitize x) = sanitize x" unfolding y_def .
qed

lemma absent_Str:
  assumes "findFirst ic [Str p] y = None"
  shows "\<forall>k. \<not> occursAt ic p y k"
proof (intro allI notI)
  fix k assume "occursAt ic p y k"
  then have k: "k \<le> length y" and s: "startsWith ic p (drop k y)" by (simp_all add: occursAt_def)
  from assms k have "matchHere ic [Str p] (drop k y) = None"
    unfolding findFirst_None_iff by blast
  moreover from s have "matchHere ic [Str p] (drop k y) \<noteq> None"
    by (simp only: matchHere_Str_Some_iff) simp
  ultimately show False by blast
qed

lemma absent_Str_Alt:
  assumes "findFirst ic [Str p, Alt ts] y = None"
  shows "\<forall>t \<in> set ts. \<forall>k. \<not> occursAt ic (p @ t) y k"
proof (intro ballI allI notI)
  fix t k assume t: "t \<in> set ts" and "occursAt ic (p @ t) y k"
  then have k: "k \<le> length y" and s: "startsWith ic (p @ t) (drop k y)"
    by (simp_all add: occursAt_def)
  from s have sp: "startsWith ic p (drop k y)" by (rule startsWith_appendD)
  from s have st: "startsWith ic t (drop (length p) (drop k y))" by (rule startsWith_dropD)
  with t have "length t \<in> set (lengths ic (Alt ts) (drop (length p) (drop k y)))" by auto
  moreover have "matchHere ic [] z \<noteq> None" for z by simp
  ultimately have "matchHere ic [Alt ts] (drop (length p) (drop k y)) \<noteq> None"
    unfolding matchHere_Cons_accepts [of ic "Alt ts"] by blast
  with sp have "matchHere ic [Str p, Alt ts] (drop k y) \<noteq> None"
    unfolding matchHere_Str_Some_iff by blast
  moreover from assms k have "matchHere ic [Str p, Alt ts] (drop k y) = None"
    unfolding findFirst_None_iff by blast
  ultimately show False by blast
qed

text \<open>A page with a comment, a zero dash and a script: its sanitized form is a fixed point.\<close>

theorem sanitize_twice_witness:
  \<open>ensureNamespace (ensureNamespace ''<svg>'') = ensureNamespace ''<svg>'' \<and>
   sanitize ''<svg width="5"><!--c--><path stroke-dasharray="0,5"/><script>a</script></svg>'' =
     ''<svg xmlns="http://www.w3.org/2000/svg" width="5"><path stroke-dasharray="0.001 5"/></svg>'' \<and>
   sanitize ''<svg xmlns="http://www.w3.org/2000/svg" width="5"><path stroke-dasharray="0.001 5"/></svg>'' =
     ''<svg xmlns="http://www.w3.org/2000/svg" width="5"><path stroke-dasharray="0.001 5"/></svg>''\<close>
proof -
  let ?x = \<open>''<svg width="5"><!--c--><path stroke-dasharray="0,5"/><script>a</script></svg>''\<close>
  let ?y = \<open>''<svg xmlns="http://www.w3.org/2000/svg" width="5"><path stroke-dasharray="0.001 5"/></svg>''\<close>
  have y: "sanitize ?x = ?y" by code_simp
  have c: "findFirst False [Str ''<!--''] ?y = None" by code_simp
  have d: "findFirst True [Str ''<!DOCTYPE''] ?y = None" by code_simp
  have u: "findFirst True [Str ''<'', Alt UNWANTED_TAGS] ?y = None" by code_simp
  have f: "fixDashArrays ?y = ?y" by code_simp
  note a = absent_Str [OF c] absent_Str [OF d] absent_Str_Alt [OF u]
  have 1: "ensureNamespace (ensureNamespace ''<svg>'') = ensureNamespace ''<svg>''"
    by (rule sanitize_twice [THEN conjunct1])
  have "sanitize (sanitize ?x) = sanitize ?x"
    by (rule sanitize_twice [THEN conjunct2, THEN mp]) (unfold y, intro conjI a f)
  then have 2: "sanitize ?y = ?y" unfolding y .
  show ?thesis using 1 y 2 by (intro conjI)
qed

text \<open>
  Removing a tag or a comment can join the text around it into a new one, which only the
  next application removes: the transform is not idempotent on every text.
\<close>

theorem sanitize_not_idempotent_counterexample:
  \<open>\<not> (\<forall>x. sanitize (sanitize x) = sanitize x) \<and>
   sanitize ''<scr<script>ipt>'' = ''<script>'' \<and> sanitize ''<script>'' = '''' \<and>
   sanitize ''<svg><!-<!-- a -->- b --></svg>'' =
     ''<svg xmlns="http://www.w3.org/2000/svg"><!-- b --></svg>'' \<and>
   sanitize ''<svg xmlns="http://www.w3.org/2000/svg"><!-- b --></svg>'' =
     ''<svg xmlns="http://www.w3.org/2000/svg"></svg>''\<close>
proof -
  have 1: "sanitize ''<scr<script>ipt>'' = ''<script>''" by code_simp
  have 2: "sanitize ''<script>'' = ''''" by code_simp
  have 3: \<open>sanitize ''<svg><!-<!-- a -->- b --></svg>'' =
     ''<svg xmlns="http://www.w3.org/2000/svg"><!-- b --></svg>''\<close> by code_simp
  have 4: \<open>sanitize ''<svg xmlns="http://www.w3.org/2000/svg"><!-- b --></svg>'' =
     ''<svg xmlns="http://www.w3.org/2000/svg"></svg>''\<close> by code_simp
  have "\<not> (\<forall>x. sanitize (sanitize x) = sanitize x)"
  proof
    assume "\<forall>x. sanitize (sanitize x) = sanitize x"
    then have "sanitize (sanitize ''<scr<script>ipt>'') = sanitize ''<scr<script>ipt>''" by blast
    then show False unfolding 1 2 by simp
  qed
  then show ?thesis using 1 2 3 4 by (intro conjI)
qed

end
